theory Spec2Isabelle
  imports Main "HOL-Library.Multiset" "HOL-Library.Word"
begin

unbundle bit_operations_syntax

section \<open>Target selection: iterator/iter_utils.c\<close>

subsection \<open>Data\<close>

text \<open>
  The macros \<^verbatim>\<open>USEFUL_SERVER_TOP_TIMEOUT\<close>, \<^verbatim>\<open>RTT_BAND\<close>,
  \<^verbatim>\<open>OUTBOUND_MSG_RETRY\<close> and \<^verbatim>\<open>UNKNOWN_SERVER_NICENESS\<close> are used by
  \<^verbatim>\<open>iter_utils.c\<close> but declared in a header that is not among the sources.
  They are parameters of the model. All of them are C \<^verbatim>\<open>int\<close>s; the model uses
  unbounded integers, which agrees with the C arithmetic as long as round trip
  times and the constants stay far below \<open>2^31\<close> (they are milliseconds).
\<close>

record iter_macros =
  USEFUL_SERVER_TOP_TIMEOUT :: int
  RTT_BAND :: int
  OUTBOUND_MSG_RETRY :: int
  UNKNOWN_SERVER_NICENESS :: int

text \<open>
  A socket address. Its bytes are never inspected by the selection code, which
  hands it to \<^verbatim>\<open>donotq_lookup\<close>, \<^verbatim>\<open>addr_is_ip6\<close> and
  \<^verbatim>\<open>infra_get_lame_rtt\<close>.
\<close>

datatype sockaddr = IP4 nat | IP6 nat

text \<open>
  \<^verbatim>\<open>struct delegpt_addr\<close>, the fields that selection reads or writes. The
  \<^verbatim>\<open>next_result\<close> pointer is the list structure itself; \<open>ptr\<close> is the address
  of the node, which is what \<^verbatim>\<open>iter_server_selection\<close> returns and what tells
  two nodes apart.
\<close>

record delegpt_addr =
  ptr :: nat
  addr :: sockaddr
  attempts :: int
  sel_rtt :: int

text \<open>\<^verbatim>\<open>struct delegpt\<close>: selection touches the \<^verbatim>\<open>result_list\<close> only.\<close>

record delegpt =
  result_list :: "delegpt_addr list"

text \<open>
  \<^verbatim>\<open>struct iter_env\<close>: \<open>donotq_lookup\<close> stands for
  \<^verbatim>\<open>donotq_lookup(iter_env->donotq, addr, addrlen)\<close> and \<open>addr_is_ip6\<close> for the
  helper of that name in \<^verbatim>\<open>util/net_help\<close>; both are outside the sources and are
  taken as given.
\<close>

record iter_env =
  donotq_lookup :: "sockaddr \<Rightarrow> bool"
  addr_is_ip6 :: "sockaddr \<Rightarrow> bool"
  supports_ipv6 :: bool

text \<open>
  \<^verbatim>\<open>struct module_env\<close>: \<open>infra_get_lame_rtt\<close> stands for the infra cache
  lookup for an address, a zone name, a query type and a time. It returns
  \<open>None\<close> when the C function returns 0 (no entry) and
  \<open>Some (lame, dnsseclame, rtt)\<close> when it returns 1 and fills its three
  output parameters. \<open>now\<close> is \<^verbatim>\<open>*env->now\<close>.
\<close>

record module_env =
  infra_get_lame_rtt ::
    "sockaddr \<Rightarrow> 8 word list \<Rightarrow> 16 word \<Rightarrow> 32 word \<Rightarrow> (bool \<times> bool \<times> int) option"
  now :: "32 word"

subsection \<open>iter\_filter\_unsuitable\<close>

text \<open>Filter out unsuitable targets: the selection RTT, or \<open>-1\<close>.\<close>

definition iter_filter_unsuitable ::
  "iter_macros \<Rightarrow> iter_env \<Rightarrow> module_env \<Rightarrow> 8 word list \<Rightarrow> 16 word \<Rightarrow> 32 word \<Rightarrow>
   delegpt_addr \<Rightarrow> int" where
  "iter_filter_unsuitable m ie env name qtype nw a =
    (if donotq_lookup ie (addr a) then - 1
     else if \<not> supports_ipv6 ie \<and> addr_is_ip6 ie (addr a) then - 1
     else case infra_get_lame_rtt env (addr a) name qtype nw of
        Some (lame, dnsseclame, rtt) \<Rightarrow>
          if lame then - 1
          else if rtt \<ge> USEFUL_SERVER_TOP_TIMEOUT m then - 1
          else if dnsseclame then rtt + USEFUL_SERVER_TOP_TIMEOUT m
          else rtt
      | None \<Rightarrow> UNKNOWN_SERVER_NICENESS m)"

subsection \<open>iter\_fill\_rtt\<close>

text \<open>
  The loop of \<^verbatim>\<open>iter_fill_rtt\<close> over the nodes from \<open>a\<close> on. It stores
  \<open>sel_rtt\<close> in every node and tracks \<open>got_it\<close> and \<open>*best_rtt\<close>. The result is
  the updated nodes with the final \<open>got_it\<close> and \<open>*best_rtt\<close>.
\<close>

fun iter_fill_rtt_loop ::
  "iter_macros \<Rightarrow> iter_env \<Rightarrow> module_env \<Rightarrow> 8 word list \<Rightarrow> 16 word \<Rightarrow> 32 word \<Rightarrow>
   delegpt_addr list \<Rightarrow> bool \<Rightarrow> int \<Rightarrow> delegpt_addr list \<times> bool \<times> int" where
  "iter_fill_rtt_loop m ie env name qtype nw [] got_it best_rtt = ([], got_it, best_rtt)"
| "iter_fill_rtt_loop m ie env name qtype nw (a # n) got_it best_rtt =
    (let a' = a\<lparr>sel_rtt := iter_filter_unsuitable m ie env name qtype nw a\<rparr>;
         (got_it', best_rtt') =
           (if sel_rtt a' \<noteq> - 1 then
              (if \<not> got_it then (True, sel_rtt a')
               else if sel_rtt a' < best_rtt then (got_it, sel_rtt a')
               else (got_it, best_rtt))
            else (got_it, best_rtt));
         (n', g, b) = iter_fill_rtt_loop m ie env name qtype nw n got_it' best_rtt'
     in (a' # n', g, b))"

text \<open>
  \<^verbatim>\<open>iter_fill_rtt\<close>: the updated delegation point, the return value
  \<open>got_it\<close> and the value of \<open>*best_rtt\<close> afterwards (\<open>best_rtt\<close> is its value
  at the call).
\<close>

definition iter_fill_rtt ::
  "iter_macros \<Rightarrow> iter_env \<Rightarrow> module_env \<Rightarrow> 8 word list \<Rightarrow> 16 word \<Rightarrow> 32 word \<Rightarrow>
   delegpt \<Rightarrow> int \<Rightarrow> delegpt \<times> bool \<times> int" where
  "iter_fill_rtt m ie env name qtype nw dp best_rtt =
    (let (l, got_it, b) = iter_fill_rtt_loop m ie env name qtype nw (result_list dp) False best_rtt
     in (dp\<lparr>result_list := l\<rparr>, got_it, b))"

subsection \<open>iter\_filter\_order\<close>

text \<open>
  The classification in the loop body: \<open>swap_to_front\<close> is set (and
  \<open>got_num\<close> incremented) in either branch of the \<^verbatim>\<open>if\<close>/\<^verbatim>\<open>else if\<close>.
\<close>

definition swap_to_front :: "iter_macros \<Rightarrow> int \<Rightarrow> delegpt_addr \<Rightarrow> bool" where
  "swap_to_front m low_rtt a =
    (if sel_rtt a \<ge> low_rtt \<and> sel_rtt a - low_rtt \<le> RTT_BAND m then True
     else if sel_rtt a < low_rtt \<and> low_rtt - sel_rtt a \<le> RTT_BAND m then True
     else False)"

text \<open>
  The \<^verbatim>\<open>while(a)\<close> loop of \<^verbatim>\<open>iter_filter_order\<close>. The linked list that
  starts at \<^verbatim>\<open>dp->result_list\<close> is split at the cursor: \<open>before\<close> holds the
  nodes from the head up to and including \<^verbatim>\<open>prev\<close>, \<open>rest\<close> the nodes from
  \<^verbatim>\<open>a\<close> on. \<^verbatim>\<open>prev\<close> is \<^verbatim>\<open>NULL\<close> exactly when \<open>before\<close> is empty
  (then \<^verbatim>\<open>a\<close> is the head). Unlinking \<^verbatim>\<open>a\<close> after \<^verbatim>\<open>prev\<close> and
  making it the new head puts it in front of \<open>before\<close> and leaves
  \<^verbatim>\<open>prev\<close> where it is; otherwise the cursor advances and \<^verbatim>\<open>a\<close> becomes
  \<^verbatim>\<open>prev\<close>. The result is the final list and \<open>got_num\<close>.
\<close>

fun iter_filter_order_loop ::
  "iter_macros \<Rightarrow> int \<Rightarrow> delegpt_addr list \<Rightarrow> delegpt_addr list \<Rightarrow> int \<Rightarrow>
   delegpt_addr list \<times> int" where
  "iter_filter_order_loop m low_rtt before [] got_num = (before, got_num)"
| "iter_filter_order_loop m low_rtt before (a # n) got_num =
    (if sel_rtt a = - 1 then iter_filter_order_loop m low_rtt (before @ [a]) n got_num
     else
       let swap = swap_to_front m low_rtt a;
           got_num' = (if swap then got_num + 1 else got_num)
       in if swap \<and> before \<noteq> [] then iter_filter_order_loop m low_rtt (a # before) n got_num'
          else iter_filter_order_loop m low_rtt (before @ [a]) n got_num')"

text \<open>
  \<^verbatim>\<open>iter_filter_order\<close>: the updated delegation point, the number of best
  targets, and \<open>*selected_rtt\<close>, which is written only when a suitable target
  exists (\<open>None\<close>: not written).
\<close>

definition iter_filter_order ::
  "iter_macros \<Rightarrow> iter_env \<Rightarrow> module_env \<Rightarrow> 8 word list \<Rightarrow> 16 word \<Rightarrow> 32 word \<Rightarrow>
   delegpt \<Rightarrow> delegpt \<times> int \<times> int option" where
  "iter_filter_order m ie env name qtype nw dp =
    (let (dp1, got_it, low_rtt) = iter_fill_rtt m ie env name qtype nw dp 0
     in if \<not> got_it then (dp1, 0, None)
        else
          let (l, got_num) = iter_filter_order_loop m low_rtt [] (result_list dp1) 0
          in (dp1\<lparr>result_list := l\<rparr>, got_num, Some low_rtt))"

subsection \<open>iter\_server\_selection\<close>

text \<open>
  The walk \<^verbatim>\<open>while(sel > 0 && a)\<close>: \<open>before\<close> are the nodes passed (the last
  one is \<^verbatim>\<open>prev\<close>), the second list the nodes from \<^verbatim>\<open>a\<close> on.
\<close>

fun selection_walk ::
  "nat \<Rightarrow> delegpt_addr list \<Rightarrow> delegpt_addr list \<Rightarrow> delegpt_addr list \<times> delegpt_addr list" where
  "selection_walk 0 before rest = (before, rest)"
| "selection_walk (Suc sel) before [] = (before, [])"
| "selection_walk (Suc sel) before (a # n) = selection_walk sel (before @ [a]) n"

text \<open>
  \<^verbatim>\<open>iter_server_selection\<close>. \<open>rnd\<close> is the value that \<^verbatim>\<open>ub_random\<close>
  returns (a non-negative number) if it is called; \<open>dnssec_expected\<close> is the
  value of \<^verbatim>\<open>*dnssec_expected\<close> at the call. The result is the returned
  node (\<open>None\<close> for \<^verbatim>\<open>NULL\<close>), the delegation point afterwards and
  \<^verbatim>\<open>*dnssec_expected\<close> afterwards. A returned node is shown with the fields it
  has after the call. \<open>selrtt\<close> is read only where \<^verbatim>\<open>iter_filter_order\<close> has
  written it. With \<open>num = 1\<close> the source dereferences the head of the list
  without a test, and after the walk it has a test for \<^verbatim>\<open>NULL\<close> (for
  robustness); these are the two branches for the empty list, and neither is
  ever taken (lemmas \<open>iter_server_selection_none\<close> and
  \<open>iter_server_selection_some\<close> below).
\<close>

definition iter_server_selection ::
  "iter_macros \<Rightarrow> iter_env \<Rightarrow> module_env \<Rightarrow> delegpt \<Rightarrow> 8 word list \<Rightarrow> 16 word \<Rightarrow>
   nat \<Rightarrow> bool \<Rightarrow> delegpt_addr option \<times> delegpt \<times> bool" where
  "iter_server_selection m ie env dp name qtype rnd dnssec_expected =
    (let (dp1, num, selrtt) = iter_filter_order m ie env name qtype (now env) dp
     in if num = 0 then (None, dp1, dnssec_expected)
        else
          let dnssec_expected' =
                (case selrtt of
                   Some s \<Rightarrow> if s \<ge> USEFUL_SERVER_TOP_TIMEOUT m then False else dnssec_expected
                 | None \<Rightarrow> dnssec_expected)
          in if num = 1 then
               (case result_list dp1 of
                  [] \<Rightarrow> (None, dp1, dnssec_expected')
                | a # n \<Rightarrow>
                    let a' = a\<lparr>attempts := attempts a + 1\<rparr>
                    in if attempts a' < OUTBOUND_MSG_RETRY m
                       then (Some a', dp1\<lparr>result_list := a' # n\<rparr>, dnssec_expected')
                       else (Some a', dp1\<lparr>result_list := n\<rparr>, dnssec_expected'))
             else
               let sel = nat (int rnd mod num);
                   (before, rest) = selection_walk sel [] (result_list dp1)
               in case rest of
                    [] \<Rightarrow> (None, dp1, dnssec_expected')
                  | a # n \<Rightarrow>
                      let a' = a\<lparr>attempts := attempts a + 1\<rparr>
                      in if attempts a' < OUTBOUND_MSG_RETRY m
                         then (Some a', dp1\<lparr>result_list := before @ a' # n\<rparr>, dnssec_expected')
                         else (Some a', dp1\<lparr>result_list := before @ n\<rparr>, dnssec_expected'))"

subsection \<open>Notions used to state the properties of selection\<close>

text \<open>
  The node \<open>a\<close> after \<^verbatim>\<open>iter_fill_rtt\<close> has stored its selection RTT.
\<close>

definition fill_node ::
  "iter_macros \<Rightarrow> iter_env \<Rightarrow> module_env \<Rightarrow> 8 word list \<Rightarrow> 16 word \<Rightarrow> 32 word \<Rightarrow>
   delegpt_addr \<Rightarrow> delegpt_addr" where
  "fill_node m ie env name qtype nw a =
     a\<lparr>sel_rtt := iter_filter_unsuitable m ie env name qtype nw a\<rparr>"

text \<open>The candidate list of \<open>dp\<close> once every node has its selection RTT.\<close>

definition filled_list ::
  "iter_macros \<Rightarrow> iter_env \<Rightarrow> module_env \<Rightarrow> 8 word list \<Rightarrow> 16 word \<Rightarrow> 32 word \<Rightarrow>
   delegpt \<Rightarrow> delegpt_addr list" where
  "filled_list m ie env name qtype nw dp =
     map (fill_node m ie env name qtype nw) (result_list dp)"

text \<open>The survivors: the nodes that are not marked unsuitable.\<close>

definition survivors :: "delegpt_addr list \<Rightarrow> delegpt_addr list" where
  "survivors l = filter (\<lambda>a. sel_rtt a \<noteq> - 1) l"

text \<open>The minimum selection RTT across the survivors (meaningful when there is one).\<close>

definition low_rtt_of :: "delegpt_addr list \<Rightarrow> int" where
  "low_rtt_of l = Min (set (map sel_rtt (survivors l)))"

text \<open>
  A survivor is in the band when its selection RTT differs from the minimum by
  at most \<^verbatim>\<open>RTT_BAND\<close>. The best set is the list of those nodes, in the order of
  the candidate list; the others are the remaining nodes, in that order too.
\<close>

definition in_band :: "iter_macros \<Rightarrow> delegpt_addr list \<Rightarrow> delegpt_addr \<Rightarrow> bool" where
  "in_band m l a = (sel_rtt a \<noteq> - 1 \<and> \<bar>sel_rtt a - low_rtt_of l\<bar> \<le> RTT_BAND m)"

definition best_set :: "iter_macros \<Rightarrow> delegpt_addr list \<Rightarrow> delegpt_addr list" where
  "best_set m l = filter (in_band m l) l"

definition others :: "iter_macros \<Rightarrow> delegpt_addr list \<Rightarrow> delegpt_addr list" where
  "others m l = filter (\<lambda>a. \<not> in_band m l a) l"

text \<open>A returned node has its attempt counter incremented.\<close>

definition bump :: "delegpt_addr \<Rightarrow> delegpt_addr" where
  "bump a = a\<lparr>attempts := attempts a + 1\<rparr>"

text \<open>
  One call of \<^verbatim>\<open>iter_server_selection\<close> by the iterator: the environments
  (the infra cache and the time change between calls), the question, the random
  number and the value of \<^verbatim>\<open>*dnssec_expected\<close>.
\<close>

record selection_call =
  call_ie :: iter_env
  call_env :: module_env
  call_name :: "8 word list"
  call_qtype :: "16 word"
  call_rnd :: nat
  call_dnssec_expected :: bool

text \<open>
  A sequence of calls on one delegation point, each working on the list the
  previous one left: the nodes returned, in order.
\<close>

fun run_selections ::
  "iter_macros \<Rightarrow> selection_call list \<Rightarrow> delegpt \<Rightarrow> delegpt_addr option list" where
  "run_selections m [] dp = []"
| "run_selections m (c # cs) dp =
    (case iter_server_selection m (call_ie c) (call_env c) dp (call_name c) (call_qtype c)
            (call_rnd c) (call_dnssec_expected c) of
       (r, dp', d) \<Rightarrow> r # run_selections m cs dp')"

text \<open>
  The position in the reordered list that a call picks when the best set has
  \<open>n\<close> members and the random number is \<open>rnd\<close>.
\<close>

definition chosen_index :: "nat \<Rightarrow> nat \<Rightarrow> nat" where
  "chosen_index n rnd = (if n = 1 then 0 else rnd mod n)"

text \<open>
  The bookkeeping of \<open>got_it\<close> and \<open>*best_rtt\<close> in \<^verbatim>\<open>iter_fill_rtt\<close>, on the
  selection RTTs alone, and the selection RTTs that are not the marker.
\<close>

fun best_acc :: "bool \<Rightarrow> int \<Rightarrow> int list \<Rightarrow> bool \<times> int" where
  "best_acc g b [] = (g, b)"
| "best_acc g b (x # xs) =
    (if x \<noteq> - 1 then
       (if \<not> g then best_acc True x xs
        else if x < b then best_acc g x xs else best_acc g b xs)
     else best_acc g b xs)"

definition ok_rtts :: "int list \<Rightarrow> int list" where
  "ok_rtts xs = filter (\<lambda>x. x \<noteq> - 1) xs"

subsection \<open>A concrete delegation point\<close>

text \<open>
  The candidates \<open>A\<close>, \<open>B\<close> and \<open>C\<close> (addresses 10, 11 and 12) with cached
  round trip times 20, 25 and 400, under \<^verbatim>\<open>RTT_BAND\<close> = 50 and
  \<^verbatim>\<open>USEFUL_SERVER_TOP_TIMEOUT\<close> = 376. The cache also knows a server that is lame
  for DNSSEC (address 13, round trip time 10), a slow server (address 14, 350), a
  lame server (address 15) and nothing about any other address. Address 127 is
  on the do-not-query list and IPv6 is off.
\<close>

definition scenario_macros :: iter_macros where
  "scenario_macros =
     \<lparr>USEFUL_SERVER_TOP_TIMEOUT = 376, RTT_BAND = 50, OUTBOUND_MSG_RETRY = 4,
      UNKNOWN_SERVER_NICENESS = 376\<rparr>"

definition scenario_ie :: iter_env where
  "scenario_ie =
     \<lparr>donotq_lookup = (\<lambda>a. a = IP4 127),
      addr_is_ip6 = (\<lambda>a. case a of IP6 x \<Rightarrow> True | IP4 x \<Rightarrow> False),
      supports_ipv6 = False\<rparr>"

definition scenario_infra ::
  "sockaddr \<Rightarrow> 8 word list \<Rightarrow> 16 word \<Rightarrow> 32 word \<Rightarrow> (bool \<times> bool \<times> int) option" where
  "scenario_infra a name qtype nw =
     (if a = IP4 10 then Some (False, False, 20)
      else if a = IP4 11 then Some (False, False, 25)
      else if a = IP4 12 then Some (False, False, 400)
      else if a = IP4 13 then Some (False, True, 10)
      else if a = IP4 14 then Some (False, False, 350)
      else if a = IP4 15 then Some (True, False, 5)
      else None)"

definition scenario_env :: module_env where
  "scenario_env = \<lparr>infra_get_lame_rtt = scenario_infra, now = 0\<rparr>"

text \<open>
  The node at address \<open>p\<close> for the server \<open>IP4 p\<close>, with \<open>k\<close> attempts counted
  and \<open>r\<close> in its \<open>sel_rtt\<close> field. A fresh node has no attempts and nothing
  meaningful in \<open>sel_rtt\<close>.
\<close>

definition node_at :: "nat \<Rightarrow> int \<Rightarrow> int \<Rightarrow> delegpt_addr" where
  "node_at p k r = \<lparr>ptr = p, addr = IP4 p, attempts = k, sel_rtt = r\<rparr>"

definition node :: "nat \<Rightarrow> delegpt_addr" where
  "node p = node_at p 0 0"

definition scenario_dp :: delegpt where
  "scenario_dp = \<lparr>result_list = [node 10, node 11, node 12]\<rparr>"

text \<open>A call with that environment, the random number 0 and the flag set.\<close>

definition scenario_call :: selection_call where
  "scenario_call =
     \<lparr>call_ie = scenario_ie, call_env = scenario_env, call_name = [], call_qtype = 1,
      call_rnd = 0, call_dnssec_expected = True\<rparr>"

subsection \<open>What the three functions compute\<close>

lemma fill_loop_best_acc:
  "iter_fill_rtt_loop m ie env name qtype nw l g b =
     (map (fill_node m ie env name qtype nw) l,
      best_acc g b (map sel_rtt (map (fill_node m ie env name qtype nw) l)))"
  by (induction l arbitrary: g b) (simp_all add: fill_node_def)

lemma ok_rtts_simps:
  "ok_rtts [] = []"
  "x \<noteq> - 1 \<Longrightarrow> ok_rtts (x # xs) = x # ok_rtts xs"
  "ok_rtts (- 1 # xs) = ok_rtts xs"
  by (simp_all add: ok_rtts_def)

lemma Min_set_Cons: "ys \<noteq> [] \<Longrightarrow> Min (set (x # ys)) = min x (Min (set ys))"
  by simp

lemma best_acc_True:
  "best_acc True b xs = (True, if ok_rtts xs = [] then b else min b (Min (set (ok_rtts xs))))"
proof (induction xs arbitrary: b)
  case Nil
  show ?case by (simp add: ok_rtts_simps)
next
  case (Cons x xs)
  show ?case
  proof (cases "x = - 1")
    case True
    then show ?thesis by (simp add: Cons ok_rtts_simps)
  next
    case False
    show ?thesis
    proof (cases "ok_rtts xs = []")
      case True
      with False show ?thesis by (simp add: Cons ok_rtts_simps min_def)
    next
      case ne: False
      define M where "M = Min (set (ok_rtts xs))"
      have "x < b \<Longrightarrow> min x M = min b (min x M)" "\<not> x < b \<Longrightarrow> min b M = min b (min x M)"
        by (simp_all add: min_def)
      with False ne show ?thesis
        by (simp add: Cons ok_rtts_simps Min_set_Cons M_def [symmetric] del: set_simps)
    qed
  qed
qed

lemma best_acc_False:
  "best_acc False b xs = (ok_rtts xs \<noteq> [], if ok_rtts xs = [] then b else Min (set (ok_rtts xs)))"
proof (induction xs)
  case Nil
  show ?case by (simp add: ok_rtts_simps)
next
  case (Cons x xs)
  show ?case
  proof (cases "x = - 1")
    case True
    then show ?thesis by (simp add: Cons ok_rtts_simps)
  next
    case False
    show ?thesis
    proof (cases "ok_rtts xs = []")
      case True
      with False show ?thesis by (simp add: best_acc_True ok_rtts_simps)
    next
      case ne: False
      with False show ?thesis
        by (simp add: best_acc_True ok_rtts_simps Min_set_Cons del: set_simps)
    qed
  qed
qed

lemma survivors_sel: "ok_rtts (map sel_rtt l) = map sel_rtt (survivors l)"
  by (simp add: survivors_def ok_rtts_def filter_map comp_def)

lemma fill_loop_eq:
  "iter_fill_rtt_loop m ie env name qtype nw l False b =
     (map (fill_node m ie env name qtype nw) l,
      survivors (map (fill_node m ie env name qtype nw) l) \<noteq> [],
      if survivors (map (fill_node m ie env name qtype nw) l) = [] then b
      else low_rtt_of (map (fill_node m ie env name qtype nw) l))"
  unfolding fill_loop_best_acc best_acc_False survivors_sel low_rtt_of_def
  by simp

lemma iter_fill_rtt_eq:
  "iter_fill_rtt m ie env name qtype nw dp b =
     (dp\<lparr>result_list := filled_list m ie env name qtype nw dp\<rparr>,
      survivors (filled_list m ie env name qtype nw dp) \<noteq> [],
      if survivors (filled_list m ie env name qtype nw dp) = [] then b
      else low_rtt_of (filled_list m ie env name qtype nw dp))"
  by (simp add: iter_fill_rtt_def fill_loop_eq filled_list_def)

lemma order_loop_inv:
  "before \<noteq> [] \<Longrightarrow> iter_filter_order_loop m low before l g =
     (rev (filter (\<lambda>a. sel_rtt a \<noteq> - 1 \<and> swap_to_front m low a) l) @ before @
      filter (\<lambda>a. \<not> (sel_rtt a \<noteq> - 1 \<and> swap_to_front m low a)) l,
      g + int (length (filter (\<lambda>a. sel_rtt a \<noteq> - 1 \<and> swap_to_front m low a) l)))"
  by (induction l arbitrary: before g) (auto simp: Let_def)

lemma order_loop_start:
  "iter_filter_order_loop m low [] l g =
     (rev (filter (\<lambda>a. sel_rtt a \<noteq> - 1 \<and> swap_to_front m low a) l) @
      filter (\<lambda>a. \<not> (sel_rtt a \<noteq> - 1 \<and> swap_to_front m low a)) l,
      g + int (length (filter (\<lambda>a. sel_rtt a \<noteq> - 1 \<and> swap_to_front m low a) l)))"
  by (cases l) (auto simp: Let_def order_loop_inv)

lemma swap_to_front_abs: "swap_to_front m low a = (\<bar>sel_rtt a - low\<bar> \<le> RTT_BAND m)"
  by (auto simp: swap_to_front_def)

lemma order_loop_best:
  "iter_filter_order_loop m (low_rtt_of l) [] l 0 =
     (rev (best_set m l) @ others m l, int (length (best_set m l)))"
  by (simp add: order_loop_start swap_to_front_abs best_set_def others_def in_band_def [abs_def])

lemma no_survivors_best: "survivors l = [] \<Longrightarrow> best_set m l = [] \<and> others m l = l"
  by (auto simp: survivors_def best_set_def others_def in_band_def filter_empty_conv filter_id_conv)

lemma iter_filter_order_eq:
  "iter_filter_order m ie env name qtype nw dp =
    (let l = filled_list m ie env name qtype nw dp
     in (dp\<lparr>result_list := rev (best_set m l) @ others m l\<rparr>,
         int (length (best_set m l)),
         if survivors l = [] then None else Some (low_rtt_of l)))"
  by (simp add: iter_filter_order_def iter_fill_rtt_eq order_loop_best Let_def no_survivors_best)

lemma selection_walk_eq: "selection_walk sel before l = (before @ take sel l, drop sel l)"
  by (induction sel before l rule: selection_walk.induct) simp_all

lemma best_set_survivors: "best_set m l \<noteq> [] \<Longrightarrow> survivors l \<noteq> []"
  using no_survivors_best by blast

lemma iter_server_selection_none:
  "best_set m (filled_list m ie env name qtype (now env) dp) = [] \<Longrightarrow>
   iter_server_selection m ie env dp name qtype rnd de =
     (None, dp\<lparr>result_list := others m (filled_list m ie env name qtype (now env) dp)\<rparr>, de)"
  by (simp add: iter_server_selection_def iter_filter_order_eq Let_def)

lemma iter_server_selection_some:
  assumes l_def: "l = filled_list m ie env name qtype (now env) dp"
    and i_def: "i = chosen_index (length (best_set m l)) rnd"
    and f_def: "f = rev (best_set m l)"
    and ne: "best_set m l \<noteq> []"
  shows "iter_server_selection m ie env dp name qtype rnd de =
     (Some (bump (f ! i)),
      dp\<lparr>result_list :=
        (if attempts (f ! i) + 1 < OUTBOUND_MSG_RETRY m
         then take i f @ bump (f ! i) # drop (Suc i) f @ others m l
         else take i f @ drop (Suc i) f @ others m l)\<rparr>,
      if low_rtt_of l \<ge> USEFUL_SERVER_TOP_TIMEOUT m then False else de)"
proof -
  from ne have sv: "survivors l \<noteq> []" by (rule best_set_survivors)
  have fne: "f \<noteq> []" using ne by (simp add: f_def)
  have lf: "length f = length (best_set m l)" by (simp add: f_def)
  show ?thesis
  proof (cases "length (best_set m l) = 1")
    case True
    then have i0: "i = 0" by (simp add: i_def chosen_index_def)
    from fne obtain a n where f: "f = a # n" by (cases f) auto
    with True lf have n: "n = []" by simp
    show ?thesis
      using True sv ne f n i0
      by (simp add: iter_server_selection_def iter_filter_order_eq Let_def l_def [symmetric]
          f_def [symmetric] bump_def)
  next
    case False
    moreover from ne have "length (best_set m l) \<noteq> 0" by simp
    ultimately have n2: "2 \<le> length (best_set m l)" by linarith
    then have ii: "i = rnd mod length f" by (simp add: i_def chosen_index_def lf)
    have "rnd mod length f < length f" using fne by simp
    then have il: "i < length f" using ii by simp
    have sel: "nat (int rnd mod int (length (best_set m l))) = i"
      using ii lf by (simp add: zmod_int [symmetric])
    have dr: "drop i (f @ others m l) = f ! i # drop (Suc i) f @ others m l"
      using il by (simp add: Cons_nth_drop_Suc)
    have tk: "take i (f @ others m l) = take i f" using il by simp
    show ?thesis
      using False sv ne n2
      by (simp add: iter_server_selection_def iter_filter_order_eq Let_def l_def [symmetric]
          f_def [symmetric] selection_walk_eq sel dr tk bump_def del: take_append drop_append)
  qed
qed

lemma node_at_sel [simp]:
  "ptr (node_at p k r) = p" "addr (node_at p k r) = IP4 p"
  "attempts (node_at p k r) = k" "sel_rtt (node_at p k r) = r"
  by (simp_all add: node_at_def)

lemma node_at_upd [simp]:
  "(node_at p k r)\<lparr>sel_rtt := r'\<rparr> = node_at p k r'"
  "(node_at p k r)\<lparr>attempts := k'\<rparr> = node_at p k' r"
  by (simp_all add: node_at_def)

lemma node_at_eq [simp]: "(node_at p k r = node_at p' k' r') = (p = p' \<and> k = k' \<and> r = r')"
  by (auto simp: node_at_def)

lemma scenario_unsuitable:
  "iter_filter_unsuitable scenario_macros scenario_ie scenario_env name qtype nw (node_at p k r) =
    (if p = 127 then - 1 else if p = 10 then 20 else if p = 11 then 25 else if p = 12 then - 1
     else if p = 13 then 386 else if p = 14 then 350 else if p = 15 then - 1 else 376)"
  by (simp add: iter_filter_unsuitable_def scenario_macros_def scenario_ie_def scenario_env_def
      scenario_infra_def)

lemma scenario_filled:
  "filled_list scenario_macros scenario_ie scenario_env name qtype nw scenario_dp =
     [node_at 10 0 20, node_at 11 0 25, node_at 12 0 (- 1)]"
  by (simp add: filled_list_def fill_node_def scenario_unsuitable scenario_dp_def node_def)

lemma scenario_low:
  "low_rtt_of [node_at 10 0 20, node_at 11 0 25, node_at 12 0 (- 1)] = 20"
  by (simp add: low_rtt_of_def survivors_def)

lemma scenario_best:
  "best_set scenario_macros [node_at 10 0 20, node_at 11 0 25, node_at 12 0 (- 1)]
     = [node_at 10 0 20, node_at 11 0 25]"
  by (simp add: best_set_def in_band_def scenario_low scenario_macros_def)

lemma scenario_others:
  "others scenario_macros [node_at 10 0 20, node_at 11 0 25, node_at 12 0 (- 1)]
     = [node_at 12 0 (- 1)]"
  by (simp add: others_def in_band_def scenario_low scenario_macros_def)

lemma mset_best_others: "mset (best_set m l) + mset (others m l) = mset l"
  by (simp add: best_set_def others_def)

lemma filled_ptrs: "map ptr (filled_list m ie env name qtype nw dp) = map ptr (result_list dp)"
  by (simp add: filled_list_def fill_node_def comp_def)

lemma mset_take_drop_nth:
  "i < length f \<Longrightarrow> mset (take i f) + mset (drop (Suc i) f) = mset f - {#f ! i#}"
proof -
  assume "i < length f"
  then have "f = take i f @ f ! i # drop (Suc i) f" by (simp add: id_take_nth_drop [symmetric])
  then have "mset f = mset (take i f @ f ! i # drop (Suc i) f)" by simp
  then have "mset f = add_mset (f ! i) (mset (take i f) + mset (drop (Suc i) f))"
    by (simp only: mset_append mset.simps union_mset_add_mset_right)
  then show ?thesis by simp
qed

lemma chosen_index_less: "n \<noteq> 0 \<Longrightarrow> chosen_index n rnd < n"
  by (simp add: chosen_index_def)

lemma best_set_subset: "set (best_set m l) \<subseteq> set l"
  by (auto simp: best_set_def)

lemma selection_mset_none:
  assumes "best_set m (filled_list m ie env name qtype (now env) dp) = []"
  shows "iter_server_selection m ie env dp name qtype rnd de =
     (None, dp\<lparr>result_list := filled_list m ie env name qtype (now env) dp\<rparr>, de)"
proof -
  let ?l = "filled_list m ie env name qtype (now env) dp"
  have "others m ?l = ?l"
    using assms by (simp add: best_set_def others_def filter_empty_conv filter_id_conv)
  with assms show ?thesis by (simp add: iter_server_selection_none)
qed

lemma selection_mset_some:
  assumes l: "l = filled_list m ie env name qtype (now env) dp"
    and ne: "best_set m l \<noteq> []"
    and b: "b = rev (best_set m l) ! chosen_index (length (best_set m l)) rnd"
    and r: "iter_server_selection m ie env dp name qtype rnd de = (r, dp', d)"
  shows "r = Some (bump b) \<and> b \<in> set (best_set m l) \<and>
     d = (if low_rtt_of l \<ge> USEFUL_SERVER_TOP_TIMEOUT m then False else de) \<and>
     mset (result_list dp') =
       (if attempts (bump b) < OUTBOUND_MSG_RETRY m then add_mset (bump b) (mset l - {#b#})
        else mset l - {#b#})"
proof -
  define f where "f = rev (best_set m l)"
  define i where "i = chosen_index (length (best_set m l)) rnd"
  have il: "i < length f" using ne by (simp add: i_def f_def chosen_index_less)
  have bf: "b = f ! i" by (simp add: b f_def i_def)
  have bin: "b \<in> set (best_set m l)"
    using il nth_mem [of i f] by (simp add: bf f_def)
  have ms: "mset (take i f) + mset (drop (Suc i) f) + mset (others m l) = mset l - {#b#}"
  proof -
    have "b \<in># mset f" using il bf by simp
    then have "mset f - {#b#} + mset (others m l) = mset f + mset (others m l) - {#b#}"
      by (simp add: multiset_eq_iff)
    moreover have "mset f + mset (others m l) = mset l"
      using mset_best_others [of m l] by (simp add: f_def)
    ultimately show ?thesis using il by (simp add: mset_take_drop_nth bf)
  qed
  have eq: "iter_server_selection m ie env dp name qtype rnd de =
     (Some (bump (f ! i)),
      dp\<lparr>result_list :=
        (if attempts (f ! i) + 1 < OUTBOUND_MSG_RETRY m
         then take i f @ bump (f ! i) # drop (Suc i) f @ others m l
         else take i f @ drop (Suc i) f @ others m l)\<rparr>,
      if low_rtt_of l \<ge> USEFUL_SERVER_TOP_TIMEOUT m then False else de)"
    by (rule iter_server_selection_some [OF l i_def f_def ne])
  have ab: "attempts (bump b) = attempts b + 1" by (simp add: bump_def)
  from eq r ms [symmetric] bin show ?thesis
    by (auto simp: bf [symmetric] ab)
qed

lemma low_rtt_attained:
  "survivors l \<noteq> [] \<Longrightarrow> \<exists>a \<in> set (survivors l). sel_rtt a = low_rtt_of l"
proof -
  assume "survivors l \<noteq> []"
  then have "Min (set (map sel_rtt (survivors l))) \<in> set (map sel_rtt (survivors l))"
    by (intro Min_in) simp_all
  then show ?thesis by (auto simp: low_rtt_of_def)
qed

lemma low_rtt_least:
  "a \<in> set (survivors l) \<Longrightarrow> low_rtt_of l \<le> sel_rtt a"
  by (simp add: low_rtt_of_def)

lemma best_set_nonempty:
  assumes "0 \<le> RTT_BAND m" and "survivors l \<noteq> []"
  shows "best_set m l \<noteq> []"
proof -
  from low_rtt_attained [OF assms(2)] obtain a
    where a: "a \<in> set (survivors l)" "sel_rtt a = low_rtt_of l" by blast
  then have "a \<in> set l" "in_band m l a"
    using assms(1) by (auto simp: survivors_def in_band_def)
  then have "a \<in> set (best_set m l)" by (simp add: best_set_def)
  then show ?thesis by auto
qed

lemma ptr_bump [simp]: "ptr (bump a) = ptr a"
  by (simp add: bump_def)

lemma sel_rtt_bump [simp]: "sel_rtt (bump a) = sel_rtt a"
  by (simp add: bump_def)

lemma attempts_bump [simp]: "attempts (bump a) = attempts a + 1"
  by (simp add: bump_def)

lemma best_set_distinct_ptr:
  assumes "distinct (map ptr (result_list dp))"
  shows "distinct (map ptr (rev (best_set m (filled_list m' ie env name qtype nw dp))))"
proof -
  have "distinct (map ptr (filled_list m' ie env name qtype nw dp))"
    using assms by (simp only: filled_ptrs)
  then show ?thesis
    by (simp add: best_set_def distinct_map_filter rev_map [symmetric])
qed

subsection \<open>The reordering pass\<close>

text \<open>
  Claim C4, as amended. For every delegation point, the reordering pass
  \<^verbatim>\<open>iter_filter_order\<close> leaves the candidate list as: the best-set candidates
  (the survivors whose selection RTT is within \<^verbatim>\<open>RTT_BAND\<close> of the minimum) at
  the front, in the reverse of the order they had before the pass, followed by
  all other candidates in their old order; and it returns the size of the best
  set. (The claim as written says that the best-set candidates keep their
  relative order; each one after the first is pushed in front of the head, so
  the order is reversed.)
\<close>

theorem iter_filter_order_best_first_reversed:
  "result_list (fst (iter_filter_order m ie env name qtype nw dp)) =
     rev (best_set m (filled_list m ie env name qtype nw dp)) @
     others m (filled_list m ie env name qtype nw dp) \<and>
   fst (snd (iter_filter_order m ie env name qtype nw dp)) =
     int (length (best_set m (filled_list m ie env name qtype nw dp)))"
  by (simp add: iter_filter_order_eq Let_def)

text \<open>
  On the candidates \<open>A\<close>, \<open>B\<close>, \<open>C\<close> the pass puts \<open>B\<close> before \<open>A\<close>.
\<close>

theorem iter_filter_order_best_first_reversed_witness:
  "result_list (fst (iter_filter_order scenario_macros scenario_ie scenario_env [] 1 0 scenario_dp)) =
     [node_at 11 0 25, node_at 10 0 20, node_at 12 0 (- 1)] \<and>
   fst (snd (iter_filter_order scenario_macros scenario_ie scenario_env [] 1 0 scenario_dp)) = 2"
  using iter_filter_order_best_first_reversed
    [of scenario_macros scenario_ie scenario_env "[]" 1 0 scenario_dp]
  by (simp add: scenario_filled scenario_best scenario_others)

text \<open>
  The claim as written fails there: the best set is \<open>A, B\<close> in list order, and
  the two nodes at the front after the pass are \<open>B, A\<close>.
\<close>

theorem iter_filter_order_keeps_order_counterexample:
  "best_set scenario_macros (filled_list scenario_macros scenario_ie scenario_env [] 1 0 scenario_dp) =
     [node_at 10 0 20, node_at 11 0 25] \<and>
   take 2 (result_list (fst (iter_filter_order scenario_macros scenario_ie scenario_env [] 1 0 scenario_dp))) =
     [node_at 11 0 25, node_at 10 0 20] \<and>
   node_at 10 0 20 \<noteq> node_at 11 0 25"
  by (simp add: iter_filter_order_eq Let_def scenario_filled scenario_best scenario_others)

text \<open>
  Claim C9. For every delegation point, the list after the reordering pass
  \<^verbatim>\<open>iter_filter_order\<close> is a permutation of the list before it (of the same
  nodes, each with its selection RTT stored): nothing is added, removed or
  duplicated. A call of \<^verbatim>\<open>iter_server_selection\<close> that returns no node leaves
  a permutation too; a call that returns a node \<open>a\<close> leaves a permutation in
  which \<open>a\<close> has one more attempt, when its counter is still below
  \<^verbatim>\<open>OUTBOUND_MSG_RETRY\<close>, and otherwise a permutation of the list without
  \<open>a\<close>: exactly the returned node is removed.
\<close>

theorem reordering_permutes_selection_removes_returned:
  "mset (result_list (fst (iter_filter_order m ie env name qtype nw dp))) =
     mset (filled_list m ie env name qtype nw dp) \<and>
   mset (map ptr (result_list (fst (iter_filter_order m ie env name qtype nw dp)))) =
     mset (map ptr (result_list dp)) \<and>
   (case iter_server_selection m ie env dp name qtype rnd de of
      (None, dp', d) \<Rightarrow>
        mset (result_list dp') = mset (filled_list m ie env name qtype (now env) dp)
    | (Some a, dp', d) \<Rightarrow>
        (\<exists>b. b \<in># mset (filled_list m ie env name qtype (now env) dp) \<and> a = bump b \<and>
           mset (result_list dp') =
             (if attempts a < OUTBOUND_MSG_RETRY m
              then add_mset a (mset (filled_list m ie env name qtype (now env) dp) - {#b#})
              else mset (filled_list m ie env name qtype (now env) dp) - {#b#})))"
proof -
  let ?l = "filled_list m ie env name qtype nw dp"
  have p: "mset (result_list (fst (iter_filter_order m ie env name qtype nw dp))) = mset ?l"
    using mset_best_others [of m ?l] by (simp add: iter_filter_order_eq Let_def)
  have "mset (map ptr (result_list (fst (iter_filter_order m ie env name qtype nw dp)))) =
     mset (map ptr ?l)"
    using p by (metis mset_map)
  then have q: "mset (map ptr (result_list (fst (iter_filter_order m ie env name qtype nw dp)))) =
     mset (map ptr (result_list dp))"
    by (simp only: filled_ptrs)
  let ?L = "filled_list m ie env name qtype (now env) dp"
  have s: "case iter_server_selection m ie env dp name qtype rnd de of
      (None, dp', d) \<Rightarrow> mset (result_list dp') = mset ?L
    | (Some a, dp', d) \<Rightarrow>
        (\<exists>b. b \<in># mset ?L \<and> a = bump b \<and>
           mset (result_list dp') =
             (if attempts a < OUTBOUND_MSG_RETRY m then add_mset a (mset ?L - {#b#})
              else mset ?L - {#b#}))"
  proof (cases "best_set m ?L = []")
    case True
    then show ?thesis by (simp add: selection_mset_none)
  next
    case False
    obtain r dp' d where r: "iter_server_selection m ie env dp name qtype rnd de = (r, dp', d)"
      by (cases "iter_server_selection m ie env dp name qtype rnd de") auto
    define b where "b = rev (best_set m ?L) ! chosen_index (length (best_set m ?L)) rnd"
    from selection_mset_some [OF refl False b_def r] best_set_subset [of m ?L]
    show ?thesis by (auto simp: r)
  qed
  from p q s show ?thesis by blast
qed

subsection \<open>The node that selection returns\<close>

text \<open>
  Claim C1. Let \<open>l\<close> be the candidate list with the selection RTTs stored and
  \<open>bs\<close> its best set: the survivors whose selection RTT differs from the minimum
  survivor RTT by at most \<^verbatim>\<open>RTT_BAND\<close>. If there is a survivor (and the band is
  not negative) the best set is not empty and selection returns one of its
  members. With an empty best set selection returns none; with one member it
  returns that member; with two or more it returns the member at position
  \<open>rnd mod length bs\<close> of the reordered best set, so that, the nodes of a list
  being distinct, each member is returned for exactly one residue class of the
  random number. Whatever is returned is a member of the best set, so a
  candidate outside the band is never returned.
\<close>

theorem selection_returns_best_set_member:
  assumes l: "l = filled_list m ie env name qtype (now env) dp"
    and bs: "bs = best_set m l"
    and r: "r = fst (iter_server_selection m ie env dp name qtype rnd de)"
  shows "(0 \<le> RTT_BAND m \<and> survivors l \<noteq> [] \<longrightarrow> bs \<noteq> []) \<and>
    (bs = [] \<longrightarrow> r = None) \<and>
    (\<forall>b. bs = [b] \<longrightarrow> r = Some (bump b)) \<and>
    (2 \<le> length bs \<longrightarrow> r = Some (bump (rev bs ! (rnd mod length bs)))) \<and>
    (2 \<le> length bs \<and> distinct (map ptr (result_list dp)) \<longrightarrow>
       (\<forall>k < length bs. (map_option ptr r = Some (ptr (rev bs ! k))) = (rnd mod length bs = k))) \<and>
    (\<forall>a. r = Some a \<longrightarrow> (\<exists>b \<in> set bs. a = bump b) \<and> in_band m l a)"
proof -
  have c1: "0 \<le> RTT_BAND m \<and> survivors l \<noteq> [] \<longrightarrow> bs \<noteq> []"
    by (simp add: bs best_set_nonempty)
  have c2: "bs = [] \<longrightarrow> r = None"
    by (simp add: r bs l iter_server_selection_none)
  have some: "bs \<noteq> [] \<Longrightarrow> r = Some (bump (rev bs ! chosen_index (length bs) rnd))"
  proof -
    assume ne: "bs \<noteq> []"
    obtain x dp' d where x: "iter_server_selection m ie env dp name qtype rnd de = (x, dp', d)"
      by (cases "iter_server_selection m ie env dp name qtype rnd de") auto
    from selection_mset_some [OF l ne [unfolded bs] refl x]
    show ?thesis by (simp add: r x bs)
  qed
  have c3: "\<forall>b. bs = [b] \<longrightarrow> r = Some (bump b)"
    using some by (auto simp: chosen_index_def)
  have c4: "2 \<le> length bs \<longrightarrow> r = Some (bump (rev bs ! (rnd mod length bs)))"
  proof
    assume n: "2 \<le> length bs"
    then have "bs \<noteq> []" by auto
    from some [OF this] n show "r = Some (bump (rev bs ! (rnd mod length bs)))"
      by (simp add: chosen_index_def)
  qed
  have c5: "2 \<le> length bs \<and> distinct (map ptr (result_list dp)) \<longrightarrow>
       (\<forall>k < length bs. (map_option ptr r = Some (ptr (rev bs ! k))) = (rnd mod length bs = k))"
  proof (intro impI allI, elim conjE)
    fix k
    assume n: "2 \<le> length bs" and d: "distinct (map ptr (result_list dp))" and k: "k < length bs"
    have dd: "distinct (map ptr (rev bs))"
      unfolding bs l by (rule best_set_distinct_ptr [OF d])
    from n have "0 < length bs" by linarith
    then have j: "rnd mod length bs < length bs" by (rule mod_less_divisor)
    have "(map ptr (rev bs) ! (rnd mod length bs) = map ptr (rev bs) ! k) = (rnd mod length bs = k)"
      using j k by (intro nth_eq_iff_index_eq [OF dd]) simp_all
    moreover have "map ptr (rev bs) ! (rnd mod length bs) = ptr (rev bs ! (rnd mod length bs))"
      using j by (intro nth_map) simp
    moreover have "map ptr (rev bs) ! k = ptr (rev bs ! k)"
      using k by (intro nth_map) simp
    moreover have "r = Some (bump (rev bs ! (rnd mod length bs)))" using c4 n by simp
    ultimately show "(map_option ptr r = Some (ptr (rev bs ! k))) = (rnd mod length bs = k)"
      by simp
  qed
  have c6: "\<forall>a. r = Some a \<longrightarrow> (\<exists>b \<in> set bs. a = bump b) \<and> in_band m l a"
  proof (intro allI impI)
    fix a assume a: "r = Some a"
    then have ne: "bs \<noteq> []" using c2 by auto
    then have i: "chosen_index (length bs) rnd < length (rev bs)"
      by (simp add: chosen_index_less)
    from some [OF ne] a have ab: "a = bump (rev bs ! chosen_index (length bs) rnd)" by simp
    have mem: "rev bs ! chosen_index (length bs) rnd \<in> set bs"
      using nth_mem [OF i] by simp
    then have "in_band m l (rev bs ! chosen_index (length bs) rnd)"
      by (simp add: bs best_set_def)
    then have "in_band m l a" by (simp add: ab in_band_def)
    with mem ab show "(\<exists>b \<in> set bs. a = bump b) \<and> in_band m l a" by blast
  qed
  from c1 c2 c3 c4 c5 c6 show ?thesis by blast
qed

subsection \<open>Evaluating the concrete delegation point\<close>

lemma scenario_fill_node:
  "fill_node scenario_macros scenario_ie scenario_env name qtype nw (node_at p k r) =
     node_at p k (iter_filter_unsuitable scenario_macros scenario_ie scenario_env name qtype nw
       (node_at p k r))"
  by (simp add: fill_node_def)

lemma filled_list_simp:
  "filled_list m ie env name qtype nw \<lparr>result_list = xs\<rparr> = map (fill_node m ie env name qtype nw) xs"
  by (simp add: filled_list_def)

lemmas scenario_eval = filled_list_simp scenario_fill_node scenario_unsuitable node_def
  low_rtt_of_def survivors_def best_set_def others_def in_band_def chosen_index_def bump_def

lemma scenario_macros_simps [simp]:
  "USEFUL_SERVER_TOP_TIMEOUT scenario_macros = 376" "RTT_BAND scenario_macros = 50"
  "OUTBOUND_MSG_RETRY scenario_macros = 4" "UNKNOWN_SERVER_NICENESS scenario_macros = 376"
  by (simp_all add: scenario_macros_def)

lemma scenario_now [simp]: "now scenario_env = 0"
  by (simp add: scenario_env_def)

text \<open>
  For claim C1: on the candidates \<open>A\<close>, \<open>B\<close>, \<open>C\<close> the best set is \<open>A, B\<close>;
  with the random number 7 selection returns \<open>A\<close>, which is in the band. \<open>C\<close>
  is not a survivor and cannot be returned.
\<close>

theorem selection_returns_best_set_member_witness:
  "0 \<le> RTT_BAND scenario_macros \<and>
   survivors (filled_list scenario_macros scenario_ie scenario_env [] 1 0 scenario_dp) \<noteq> [] \<and>
   best_set scenario_macros (filled_list scenario_macros scenario_ie scenario_env [] 1 0 scenario_dp) =
     [node_at 10 0 20, node_at 11 0 25] \<and>
   distinct (map ptr (result_list scenario_dp)) \<and>
   fst (iter_server_selection scenario_macros scenario_ie scenario_env scenario_dp [] 1 7 True) =
     Some (node_at 10 1 20) \<and>
   in_band scenario_macros (filled_list scenario_macros scenario_ie scenario_env [] 1 0 scenario_dp)
     (node_at 10 1 20)"
proof -
  have d: "distinct (map ptr (result_list scenario_dp))"
    by (simp add: scenario_dp_def node_def)
  have m: "(7::nat) mod Suc (Suc 0) = Suc 0" by presburger
  from selection_returns_best_set_member
    [OF refl refl refl, of scenario_macros scenario_ie scenario_env "[]" 1 scenario_dp 7 True] d
  show ?thesis
    by (simp add: scenario_filled scenario_best survivors_def bump_def in_band_def scenario_low m)
qed

text \<open>
  For claim C9: on a list of an unsuitable node and a node with three attempts
  the pass permutes the nodes, and selection returns the second node with its
  fourth attempt and removes exactly that node.
\<close>

theorem reordering_permutes_selection_removes_returned_witness:
  "mset (result_list (fst (iter_filter_order scenario_macros scenario_ie scenario_env [] 1 0
      \<lparr>result_list = [node_at 12 0 0, node_at 10 3 0]\<rparr>))) =
     {#node_at 12 0 (- 1), node_at 10 3 20#} \<and>
   iter_server_selection scenario_macros scenario_ie scenario_env
      \<lparr>result_list = [node_at 12 0 0, node_at 10 3 0]\<rparr> [] 1 0 True =
     (Some (node_at 10 4 20), \<lparr>result_list = [node_at 12 0 (- 1)]\<rparr>, True)"
proof -
  let ?dp = "\<lparr>result_list = [node_at 12 0 0, node_at 10 3 0]\<rparr>"
  have e: "iter_server_selection scenario_macros scenario_ie scenario_env ?dp [] 1 0 True =
     (Some (node_at 10 4 20), \<lparr>result_list = [node_at 12 0 (- 1)]\<rparr>, True)"
    by (subst iter_server_selection_some [OF refl refl refl]) (simp_all add: scenario_eval)
  from reordering_permutes_selection_removes_returned
    [of scenario_macros scenario_ie scenario_env "[]" 1 0 ?dp 0 True] e
  show ?thesis by (simp add: scenario_eval)
qed

subsection \<open>Which candidates are excluded\<close>

text \<open>
  Claim C2. Take the \<open>i\<close>-th candidate \<open>a\<close> of a delegation point and the same
  node \<open>a'\<close> after \<^verbatim>\<open>iter_fill_rtt\<close> has examined it. Round trip times in the
  infra cache are not negative, and neither is \<^verbatim>\<open>UNKNOWN_SERVER_NICENESS\<close>. Then
  \<open>a'\<close> carries the marker \<open>-1\<close> in \<open>sel_rtt\<close> if and only if the address is on
  the do-not-query list, or it is an IPv6 address while IPv6 support is off, or
  the infra cache reports it lame, or its cached round trip time is at least
  \<^verbatim>\<open>USEFUL_SERVER_TOP_TIMEOUT\<close>. A survivor that the cache reports lame for
  DNSSEC gets its cached round trip time plus \<^verbatim>\<open>USEFUL_SERVER_TOP_TIMEOUT\<close>, and
  a survivor without a cache entry gets \<^verbatim>\<open>UNKNOWN_SERVER_NICENESS\<close>. Nothing else
  of the node changes.
\<close>

theorem filter_unsuitable_exclusion:
  assumes i: "i < length (result_list dp)"
    and a: "a = result_list dp ! i"
    and a': "a' = result_list (fst (iter_fill_rtt m ie env name qtype nw dp b)) ! i"
    and rtt: "\<forall>lame dnsseclame rtt.
       infra_get_lame_rtt env (addr a) name qtype nw = Some (lame, dnsseclame, rtt) \<longrightarrow> 0 \<le> rtt"
    and unk: "0 \<le> UNKNOWN_SERVER_NICENESS m"
  shows "((sel_rtt a' = - 1) =
      (donotq_lookup ie (addr a) \<or>
       (addr_is_ip6 ie (addr a) \<and> \<not> supports_ipv6 ie) \<or>
       (\<exists>dnsseclame rtt. infra_get_lame_rtt env (addr a) name qtype nw = Some (True, dnsseclame, rtt)) \<or>
       (\<exists>lame dnsseclame rtt. infra_get_lame_rtt env (addr a) name qtype nw = Some (lame, dnsseclame, rtt)
          \<and> USEFUL_SERVER_TOP_TIMEOUT m \<le> rtt))) \<and>
    (\<forall>lame rtt. sel_rtt a' \<noteq> - 1 \<and>
        infra_get_lame_rtt env (addr a) name qtype nw = Some (lame, True, rtt) \<longrightarrow>
        sel_rtt a' = rtt + USEFUL_SERVER_TOP_TIMEOUT m) \<and>
    (sel_rtt a' \<noteq> - 1 \<and> infra_get_lame_rtt env (addr a) name qtype nw = None \<longrightarrow>
        sel_rtt a' = UNKNOWN_SERVER_NICENESS m) \<and>
    ptr a' = ptr a \<and> addr a' = addr a \<and> attempts a' = attempts a"
proof -
  have s: "a' = fill_node m ie env name qtype nw a"
    using i by (simp add: a a' iter_fill_rtt_eq filled_list_def)
  then have e: "sel_rtt a' = iter_filter_unsuitable m ie env name qtype nw a"
    by (simp add: fill_node_def)
  show ?thesis
  proof (cases "infra_get_lame_rtt env (addr a) name qtype nw")
    case None
    with unk show ?thesis
      by (auto simp: e iter_filter_unsuitable_def) (simp_all add: s fill_node_def)
  next
    case (Some t)
    obtain lame dl r where t: "t = (lame, dl, r)" by (cases t) auto
    with Some rtt have "0 \<le> r" by simp
    with Some t show ?thesis
      by (auto simp: e iter_filter_unsuitable_def) (simp_all add: s fill_node_def)
  qed
qed

text \<open>
  The second of two candidates is lame for DNSSEC with a cached round trip time
  of 10: it survives with 10 plus the threshold.
\<close>

theorem filter_unsuitable_exclusion_witness:
  "1 < length (result_list \<lparr>result_list = [node 12, node 13]\<rparr>) \<and>
   0 \<le> UNKNOWN_SERVER_NICENESS scenario_macros \<and>
   infra_get_lame_rtt scenario_env (IP4 13) [] 1 0 = Some (False, True, 10) \<and>
   sel_rtt (result_list (fst (iter_fill_rtt scenario_macros scenario_ie scenario_env [] 1 0
      \<lparr>result_list = [node 12, node 13]\<rparr> 0)) ! 1) = 10 + USEFUL_SERVER_TOP_TIMEOUT scenario_macros"
proof -
  let ?dp = "\<lparr>result_list = [node 12, node 13]\<rparr>"
  have i: "1 < length (result_list ?dp)" by simp
  have inf: "infra_get_lame_rtt scenario_env (IP4 13) [] 1 0 = Some (False, True, 10)"
    by (simp add: scenario_env_def scenario_infra_def)
  have r: "\<forall>lame dnsseclame rtt.
       infra_get_lame_rtt scenario_env (addr (result_list ?dp ! 1)) [] 1 0 =
         Some (lame, dnsseclame, rtt) \<longrightarrow> 0 \<le> rtt"
    by (simp add: node_def inf)
  have u: "0 \<le> UNKNOWN_SERVER_NICENESS scenario_macros" by simp
  have s: "sel_rtt (result_list (fst (iter_fill_rtt scenario_macros scenario_ie scenario_env [] 1 0
      ?dp 0)) ! 1) = 386"
    by (simp add: iter_fill_rtt_eq scenario_eval)
  from filter_unsuitable_exclusion [OF i refl refl r u] i inf u s
  show ?thesis by (simp add: node_def)
qed

subsection \<open>The dnssec-expected output\<close>

lemma returned_at_least_low:
  assumes "b \<in> set (best_set m l)"
  shows "low_rtt_of l \<le> sel_rtt b"
proof -
  from assms have "b \<in> set (survivors l)"
    by (simp add: best_set_def in_band_def survivors_def)
  then show ?thesis by (rule low_rtt_least)
qed

text \<open>
  Claim C3, as amended. For every call of \<^verbatim>\<open>iter_server_selection\<close> that
  returns a candidate, the dnssec-expected output is cleared if and only if the
  minimum selection RTT among the survivors is at least
  \<^verbatim>\<open>USEFUL_SERVER_TOP_TIMEOUT\<close>, and is left as it was otherwise. The returned
  candidate's selection RTT is at least that minimum. So the flag is left
  unchanged when the returned candidate's selection RTT is below the threshold,
  and it is cleared only when the returned candidate's selection RTT is at
  least the threshold. (The converse of the last statement, which the claim as
  written asserts, fails: the test is on the minimum, not on the candidate
  returned.)
\<close>

theorem dnssec_expected_follows_lowest_rtt:
  assumes r: "iter_server_selection m ie env dp name qtype rnd de = (Some a, dp', d)"
    and l: "l = filled_list m ie env name qtype (now env) dp"
  shows "d = (de \<and> low_rtt_of l < USEFUL_SERVER_TOP_TIMEOUT m) \<and>
    low_rtt_of l \<le> sel_rtt a \<and>
    (sel_rtt a < USEFUL_SERVER_TOP_TIMEOUT m \<longrightarrow> d = de) \<and>
    (d \<noteq> de \<longrightarrow> USEFUL_SERVER_TOP_TIMEOUT m \<le> sel_rtt a)"
proof -
  have ne: "best_set m l \<noteq> []"
  proof
    assume "best_set m l = []"
    then have "fst (iter_server_selection m ie env dp name qtype rnd de) = None"
      by (simp add: l iter_server_selection_none)
    with r show False by simp
  qed
  define b where "b = rev (best_set m l) ! chosen_index (length (best_set m l)) rnd"
  from selection_mset_some [OF l ne b_def r]
  have a: "a = bump b" and b: "b \<in> set (best_set m l)"
    and d: "d = (if low_rtt_of l \<ge> USEFUL_SERVER_TOP_TIMEOUT m then False else de)"
    by simp_all
  have low: "low_rtt_of l \<le> sel_rtt a"
    using returned_at_least_low [OF b] by (simp add: a)
  from d low show ?thesis by auto
qed

text \<open>
  A single candidate that is lame for DNSSEC: the minimum is above the
  threshold and the flag is cleared.
\<close>

theorem dnssec_expected_follows_lowest_rtt_witness:
  "iter_server_selection scenario_macros scenario_ie scenario_env
      \<lparr>result_list = [node 13]\<rparr> [] 1 0 True =
     (Some (node_at 13 1 386), \<lparr>result_list = [node_at 13 1 386]\<rparr>, False) \<and>
   low_rtt_of (filled_list scenario_macros scenario_ie scenario_env [] 1 0
      \<lparr>result_list = [node 13]\<rparr>) = 386 \<and>
   USEFUL_SERVER_TOP_TIMEOUT scenario_macros = 376"
proof -
  let ?dp = "\<lparr>result_list = [node 13]\<rparr>"
  have e: "iter_server_selection scenario_macros scenario_ie scenario_env ?dp [] 1 0 True =
     (Some (node_at 13 1 386), \<lparr>result_list = [node_at 13 1 386]\<rparr>, False)"
    by (subst iter_server_selection_some [OF refl refl refl]) (simp_all add: scenario_eval)
  from dnssec_expected_follows_lowest_rtt [OF e refl] e
  show ?thesis by (simp add: scenario_eval)
qed

text \<open>
  The claim as written fails when the band straddles the threshold. The slow
  server has selection RTT 350 and the server that is lame for DNSSEC has 386,
  which is within the band of 50. With the random number 0 the latter is
  returned; its selection RTT is above the threshold of 376, and the flag stays
  set.
\<close>

theorem dnssec_expected_chosen_rtt_counterexample:
  "iter_server_selection scenario_macros scenario_ie scenario_env
      \<lparr>result_list = [node 14, node 13]\<rparr> [] 1 0 True =
     (Some (node_at 13 1 386), \<lparr>result_list = [node_at 13 1 386, node_at 14 0 350]\<rparr>, True) \<and>
   USEFUL_SERVER_TOP_TIMEOUT scenario_macros \<le> sel_rtt (node_at 13 1 386)"
  by (subst iter_server_selection_some [OF refl refl refl]) (simp_all add: scenario_eval)

subsection \<open>Attempt counters and retirement\<close>

lemma filter_unsuitable_addr:
  "addr a = addr b \<Longrightarrow>
   iter_filter_unsuitable m ie env name qtype nw a = iter_filter_unsuitable m ie env name qtype nw b"
  by (simp add: iter_filter_unsuitable_def)

lemma fill_node_fields [simp]:
  "ptr (fill_node m ie env name qtype nw a) = ptr a"
  "addr (fill_node m ie env name qtype nw a) = addr a"
  "attempts (fill_node m ie env name qtype nw a) = attempts a"
  "sel_rtt (fill_node m ie env name qtype nw a) = iter_filter_unsuitable m ie env name qtype nw a"
  by (simp_all add: fill_node_def)

lemma filled_ptrs_mset:
  "image_mset ptr (mset (filled_list m ie env name qtype nw dp)) =
   image_mset ptr (mset (result_list dp))"
  using filled_ptrs [of m ie env name qtype nw dp] by (metis mset_map)

lemma selection_ptr_mset:
  assumes r: "iter_server_selection m ie env dp name qtype rnd de = (r, dp', d)"
  shows "(case r of
      None \<Rightarrow> image_mset ptr (mset (result_list dp')) = image_mset ptr (mset (result_list dp))
    | Some a \<Rightarrow> ptr a \<in># image_mset ptr (mset (result_list dp)) \<and>
        image_mset ptr (mset (result_list dp')) =
          (if attempts a < OUTBOUND_MSG_RETRY m then image_mset ptr (mset (result_list dp))
           else image_mset ptr (mset (result_list dp)) - {#ptr a#}))"
proof -
  let ?l = "filled_list m ie env name qtype (now env) dp"
  note P = filled_ptrs_mset [of m ie env name qtype "now env" dp]
  show ?thesis
  proof (cases "best_set m ?l = []")
    case True
    with r have "r = None" "result_list dp' = ?l"
      by (auto simp: selection_mset_none)
    then show ?thesis by (simp add: P)
  next
    case False
    define b where "b = rev (best_set m ?l) ! chosen_index (length (best_set m ?l)) rnd"
    from selection_mset_some [OF refl False b_def r]
    have a: "r = Some (bump b)" and b: "b \<in> set (best_set m ?l)"
      and m: "mset (result_list dp') =
       (if attempts (bump b) < OUTBOUND_MSG_RETRY m then add_mset (bump b) (mset ?l - {#b#})
        else mset ?l - {#b#})"
      by simp_all
    from b have bl: "b \<in># mset ?l" using best_set_subset [of m ?l] by auto
    then have sub: "{#b#} \<subseteq># mset ?l" by simp
    have i: "image_mset ptr (mset ?l - {#b#}) = image_mset ptr (mset ?l) - {#ptr b#}"
      using image_mset_Diff [OF sub, of ptr] by simp
    have pin: "ptr b \<in># image_mset ptr (mset ?l)" using bl by simp
    have "image_mset ptr (mset (result_list dp')) = (if attempts (bump b) < OUTBOUND_MSG_RETRY m
        then image_mset ptr (mset ?l) else image_mset ptr (mset ?l) - {#ptr b#})"
      using pin by (simp add: m i)
    then show ?thesis using pin by (simp add: a P)
  qed
qed

lemma selection_ptrs_subset:
  assumes "iter_server_selection m ie env dp name qtype rnd de = (r, dp', d)"
  shows "ptr ` set (result_list dp') \<subseteq> ptr ` set (result_list dp)"
proof -
  have "image_mset ptr (mset (result_list dp')) \<subseteq># image_mset ptr (mset (result_list dp))"
    using selection_ptr_mset [OF assms] by (cases r) (auto split: if_splits)
  then have "set_mset (image_mset ptr (mset (result_list dp'))) \<subseteq>
     set_mset (image_mset ptr (mset (result_list dp)))"
    by (rule set_mset_mono)
  then show ?thesis by simp
qed

lemma selection_returns_listed:
  assumes "iter_server_selection m ie env dp name qtype rnd de = (Some a, dp', d)"
  shows "ptr a \<in> ptr ` set (result_list dp)"
  using selection_ptr_mset [OF assms] by simp

lemma selection_unlinks:
  assumes r: "iter_server_selection m ie env dp name qtype rnd de = (Some a, dp', d)"
    and full: "OUTBOUND_MSG_RETRY m \<le> attempts a"
    and dist: "distinct (map ptr (result_list dp))"
  shows "ptr a \<notin> ptr ` set (result_list dp')"
proof -
  from selection_ptr_mset [OF r] full
  have m: "image_mset ptr (mset (result_list dp')) =
      image_mset ptr (mset (result_list dp)) - {#ptr a#}"
    by simp
  have "count (mset (map ptr (result_list dp))) (ptr a) \<le> 1"
    using dist by (simp only: distinct_count_atmost_1) simp
  then have "count (image_mset ptr (mset (result_list dp))) (ptr a) \<le> 1" by simp
  then have "count (image_mset ptr (mset (result_list dp'))) (ptr a) = 0"
    by (simp only: m count_diff count_single) simp
  then have "ptr a \<notin># image_mset ptr (mset (result_list dp'))"
    by (simp add: count_eq_zero_iff)
  then show ?thesis by simp
qed

lemma run_selections_ptrs:
  "Some a \<in> set (run_selections m cs dp) \<Longrightarrow> ptr a \<in> ptr ` set (result_list dp)"
proof (induction cs arbitrary: dp)
  case Nil
  then show ?case by simp
next
  case (Cons c cs)
  obtain r dp' d where r: "iter_server_selection m (call_ie c) (call_env c) dp (call_name c)
      (call_qtype c) (call_rnd c) (call_dnssec_expected c) = (r, dp', d)"
    by (cases "iter_server_selection m (call_ie c) (call_env c) dp (call_name c)
      (call_qtype c) (call_rnd c) (call_dnssec_expected c)") auto
  from Cons.prems r have "r = Some a \<or> Some a \<in> set (run_selections m cs dp')" by auto
  then show ?case
  proof
    assume "r = Some a"
    with r show ?thesis using selection_returns_listed by blast
  next
    assume "Some a \<in> set (run_selections m cs dp')"
    then have "ptr a \<in> ptr ` set (result_list dp')" by (rule Cons.IH)
    with selection_ptrs_subset [OF r] show ?thesis by blast
  qed
qed

lemma run_selections_empty:
  "run_selections m cs \<lparr>result_list = []\<rparr> = replicate (length cs) None"
proof (induction cs)
  case Nil
  show ?case by simp
next
  case (Cons c cs)
  have "iter_server_selection m (call_ie c) (call_env c) \<lparr>result_list = []\<rparr> (call_name c)
      (call_qtype c) (call_rnd c) (call_dnssec_expected c) =
      (None, \<lparr>result_list = []\<rparr>, call_dnssec_expected c)"
    by (subst selection_mset_none) (simp_all add: filled_list_def best_set_def)
  then show ?case by (simp add: Cons)
qed

lemma selection_single:
  assumes ok: "iter_filter_unsuitable m ie env name qtype (now env) x \<noteq> - 1"
    and band: "0 \<le> RTT_BAND m"
  shows "\<exists>d. iter_server_selection m ie env \<lparr>result_list = [x]\<rparr> name qtype rnd de =
     (Some (bump (fill_node m ie env name qtype (now env) x)),
      \<lparr>result_list = (if attempts x + 1 < OUTBOUND_MSG_RETRY m
         then [bump (fill_node m ie env name qtype (now env) x)] else [])\<rparr>, d)"
proof -
  let ?y = "fill_node m ie env name qtype (now env) x"
  have l: "filled_list m ie env name qtype (now env) \<lparr>result_list = [x]\<rparr> = [?y]"
    by (simp add: filled_list_def)
  have sy: "sel_rtt ?y \<noteq> - 1" using ok by simp
  then have low: "low_rtt_of [?y] = sel_rtt ?y" by (simp add: low_rtt_of_def survivors_def)
  have bs: "best_set m [?y] = [?y]" using sy band by (simp add: best_set_def in_band_def low)
  have os: "others m [?y] = []" using sy band by (simp add: others_def in_band_def low)
  show ?thesis
    by (subst iter_server_selection_some [OF refl refl refl])
      (simp_all add: l bs os chosen_index_def)
qed

lemma run_selections_single:
  assumes band: "0 \<le> RTT_BAND m"
  shows "\<forall>c \<in> set cs. iter_filter_unsuitable m (call_ie c) (call_env c) (call_name c)
          (call_qtype c) (now (call_env c)) x \<noteq> - 1 \<Longrightarrow>
     attempts x < OUTBOUND_MSG_RETRY m \<Longrightarrow> i < length cs \<Longrightarrow>
     map_option (\<lambda>a. (ptr a, attempts a)) (run_selections m cs \<lparr>result_list = [x]\<rparr> ! i) =
       (if attempts x + int i < OUTBOUND_MSG_RETRY m
        then Some (ptr x, attempts x + int i + 1) else None)"
proof (induction cs arbitrary: x i)
  case Nil
  then show ?case by simp
next
  case (Cons c cs)
  let ?y = "bump (fill_node m (call_ie c) (call_env c) (call_name c) (call_qtype c)
     (now (call_env c)) x)"
  from Cons.prems(1) have okc: "iter_filter_unsuitable m (call_ie c) (call_env c) (call_name c)
          (call_qtype c) (now (call_env c)) x \<noteq> - 1" by simp
  from selection_single [OF okc band] obtain d where
    s: "iter_server_selection m (call_ie c) (call_env c) \<lparr>result_list = [x]\<rparr> (call_name c)
      (call_qtype c) (call_rnd c) (call_dnssec_expected c) =
     (Some ?y, \<lparr>result_list = (if attempts x + 1 < OUTBOUND_MSG_RETRY m then [?y] else [])\<rparr>, d)"
    by blast
  have py: "ptr ?y = ptr x" "attempts ?y = attempts x + 1" "addr ?y = addr x"
    by (simp_all add: bump_def)
  show ?case
  proof (cases i)
    case 0
    with Cons.prems(2) show ?thesis by (simp add: s py)
  next
    case (Suc j)
    with Cons.prems(3) have j: "j < length cs" by simp
    show ?thesis
    proof (cases "attempts x + 1 < OUTBOUND_MSG_RETRY m")
      case True
      have ok': "\<forall>c \<in> set cs. iter_filter_unsuitable m (call_ie c) (call_env c) (call_name c)
          (call_qtype c) (now (call_env c)) ?y \<noteq> - 1"
        using Cons.prems(1) filter_unsuitable_addr [OF py(3)] by simp
      have ay: "attempts ?y < OUTBOUND_MSG_RETRY m" using True by (simp add: py)
      from Cons.IH [OF ok' ay j] True show ?thesis
        by (simp add: s Suc py algebra_simps)
    next
      case False
      then have "\<not> attempts x + int (Suc j) < OUTBOUND_MSG_RETRY m" by simp
      with False j show ?thesis
        by (simp add: s Suc run_selections_empty del: of_nat_Suc)
    qed
  qed
qed



lemma selection_increments:
  assumes r: "iter_server_selection m ie env dp name qtype rnd de = (Some a, dp', d)"
  shows "(\<exists>b \<in> set (result_list dp).
      ptr a = ptr b \<and> addr a = addr b \<and> attempts a = attempts b + 1) \<and>
    (attempts a < OUTBOUND_MSG_RETRY m \<longrightarrow> a \<in> set (result_list dp'))"
proof -
  let ?l = "filled_list m ie env name qtype (now env) dp"
  have ne: "best_set m ?l \<noteq> []"
  proof
    assume "best_set m ?l = []"
    then have "fst (iter_server_selection m ie env dp name qtype rnd de) = None"
      by (simp add: iter_server_selection_none)
    with r show False by simp
  qed
  define b where "b = rev (best_set m ?l) ! chosen_index (length (best_set m ?l)) rnd"
  from selection_mset_some [OF refl ne b_def r]
  have a: "a = bump b" and b: "b \<in> set (best_set m ?l)"
    and ms: "mset (result_list dp') =
       (if attempts (bump b) < OUTBOUND_MSG_RETRY m then add_mset (bump b) (mset ?l - {#b#})
        else mset ?l - {#b#})"
    by simp_all
  from b best_set_subset [of m ?l] have "b \<in> set ?l" by blast
  then obtain b0 where b0: "b0 \<in> set (result_list dp)"
      "b = fill_node m ie env name qtype (now env) b0"
    by (auto simp: filled_list_def)
  then have 1: "\<exists>b \<in> set (result_list dp).
      ptr a = ptr b \<and> addr a = addr b \<and> attempts a = attempts b + 1"
    by (intro bexI [of _ b0]) (simp_all add: a bump_def)
  have 2: "attempts a < OUTBOUND_MSG_RETRY m \<longrightarrow> a \<in> set (result_list dp')"
  proof
    assume "attempts a < OUTBOUND_MSG_RETRY m"
    with ms a have "a \<in># mset (result_list dp')" by simp
    then show "a \<in> set (result_list dp')" by simp
  qed
  from 1 2 show ?thesis by blast
qed

text \<open>
  Claim C5, as amended. Every call of \<^verbatim>\<open>iter_server_selection\<close> that
  returns a candidate returns a node of the list with its attempt counter
  incremented by exactly one. While the counter is below
  \<^verbatim>\<open>OUTBOUND_MSG_RETRY\<close> the node stays in the list; when the counter reaches
  \<^verbatim>\<open>OUTBOUND_MSG_RETRY\<close> the node is unlinked and (the nodes of a list being
  distinct) no later selection returns it, whatever the later calls are.
  Consequently a delegation point with a single candidate \<open>x\<close> that is suitable
  at every call (the filter does not exclude it: it is not on the do-not-query
  list, not an IPv6 address while IPv6 is off, not lame and not slower than
  \<^verbatim>\<open>USEFUL_SERVER_TOP_TIMEOUT\<close>) yields \<open>x\<close> on every selection, with one more
  attempt each time, until its attempts reach \<^verbatim>\<open>OUTBOUND_MSG_RETRY\<close>, and none
  afterwards. (The claim as written asks only that the candidate be not lame.)
\<close>

theorem attempts_counted_and_candidate_retired:
  "(\<forall>a dp' d. iter_server_selection m ie env dp name qtype rnd de = (Some a, dp', d) \<longrightarrow>
      (\<exists>b \<in> set (result_list dp).
         ptr a = ptr b \<and> addr a = addr b \<and> attempts a = attempts b + 1) \<and>
      (attempts a < OUTBOUND_MSG_RETRY m \<longrightarrow> a \<in> set (result_list dp')) \<and>
      (OUTBOUND_MSG_RETRY m \<le> attempts a \<and> distinct (map ptr (result_list dp)) \<longrightarrow>
         ptr a \<notin> ptr ` set (result_list dp') \<and>
         (\<forall>cs a'. Some a' \<in> set (run_selections m cs dp') \<longrightarrow> ptr a' \<noteq> ptr a))) \<and>
   (0 \<le> RTT_BAND m \<and> attempts x < OUTBOUND_MSG_RETRY m \<and>
    (\<forall>c \<in> set cs. iter_filter_unsuitable m (call_ie c) (call_env c) (call_name c)
          (call_qtype c) (now (call_env c)) x \<noteq> - 1) \<longrightarrow>
    (\<forall>i < length cs.
       map_option (\<lambda>a. (ptr a, attempts a)) (run_selections m cs \<lparr>result_list = [x]\<rparr> ! i) =
         (if attempts x + int i < OUTBOUND_MSG_RETRY m
          then Some (ptr x, attempts x + int i + 1) else None)))"
proof (intro conjI allI impI)
  fix a dp' d
  assume r: "iter_server_selection m ie env dp name qtype rnd de = (Some a, dp', d)"
  from selection_increments [OF r]
  show "\<exists>b \<in> set (result_list dp).
      ptr a = ptr b \<and> addr a = addr b \<and> attempts a = attempts b + 1" by blast
  {
    assume "attempts a < OUTBOUND_MSG_RETRY m"
    with selection_increments [OF r] show "a \<in> set (result_list dp')" by blast
  }
  {
    assume h: "OUTBOUND_MSG_RETRY m \<le> attempts a \<and> distinct (map ptr (result_list dp))"
    then show "ptr a \<notin> ptr ` set (result_list dp')"
      using selection_unlinks [OF r] by blast
    fix cs a'
    assume "Some a' \<in> set (run_selections m cs dp')"
    then have "ptr a' \<in> ptr ` set (result_list dp')" by (rule run_selections_ptrs)
    moreover have "ptr a \<notin> ptr ` set (result_list dp')"
      using h selection_unlinks [OF r] by blast
    ultimately show "ptr a' \<noteq> ptr a" by auto
  }
next
  fix i
  assume h: "0 \<le> RTT_BAND m \<and> attempts x < OUTBOUND_MSG_RETRY m \<and>
    (\<forall>c \<in> set cs. iter_filter_unsuitable m (call_ie c) (call_env c) (call_name c)
          (call_qtype c) (now (call_env c)) x \<noteq> - 1)"
    and i: "i < length cs"
  from h have b: "0 \<le> RTT_BAND m" and a: "attempts x < OUTBOUND_MSG_RETRY m"
    and ok: "\<forall>c \<in> set cs. iter_filter_unsuitable m (call_ie c) (call_env c) (call_name c)
          (call_qtype c) (now (call_env c)) x \<noteq> - 1" by blast+
  show "map_option (\<lambda>a. (ptr a, attempts a)) (run_selections m cs \<lparr>result_list = [x]\<rparr> ! i) =
         (if attempts x + int i < OUTBOUND_MSG_RETRY m
          then Some (ptr x, attempts x + int i + 1) else None)"
    by (rule run_selections_single [OF b ok a i])
qed

text \<open>
  A single candidate with two attempts so far, under a retry limit of four: the
  first two selections return it, the third returns none.
\<close>

theorem attempts_counted_and_candidate_retired_witness:
  "0 \<le> RTT_BAND scenario_macros \<and>
   attempts (node_at 10 2 0) < OUTBOUND_MSG_RETRY scenario_macros \<and>
   map_option (\<lambda>a. (ptr a, attempts a))
     (run_selections scenario_macros [scenario_call, scenario_call, scenario_call]
        \<lparr>result_list = [node_at 10 2 0]\<rparr> ! 0) = Some (10, 3) \<and>
   map_option (\<lambda>a. (ptr a, attempts a))
     (run_selections scenario_macros [scenario_call, scenario_call, scenario_call]
        \<lparr>result_list = [node_at 10 2 0]\<rparr> ! 1) = Some (10, 4) \<and>
   map_option (\<lambda>a. (ptr a, attempts a))
     (run_selections scenario_macros [scenario_call, scenario_call, scenario_call]
        \<lparr>result_list = [node_at 10 2 0]\<rparr> ! 2) = None"
proof -
  let ?cs = "[scenario_call, scenario_call, scenario_call]"
  have ok: "\<forall>c \<in> set ?cs. iter_filter_unsuitable scenario_macros (call_ie c) (call_env c)
      (call_name c) (call_qtype c) (now (call_env c)) (node_at 10 2 0) \<noteq> - 1"
    by (simp add: scenario_call_def scenario_unsuitable)
  have h: "0 \<le> RTT_BAND scenario_macros \<and>
      attempts (node_at 10 2 0) < OUTBOUND_MSG_RETRY scenario_macros" by simp
  from attempts_counted_and_candidate_retired
    [of scenario_macros scenario_ie scenario_env scenario_dp "[]" 1 0 True "node_at 10 2 0" ?cs]
    h ok
  have "\<forall>i < length ?cs.
       map_option (\<lambda>a. (ptr a, attempts a))
         (run_selections scenario_macros ?cs \<lparr>result_list = [node_at 10 2 0]\<rparr> ! i) =
         (if attempts (node_at 10 2 0) + int i < OUTBOUND_MSG_RETRY scenario_macros
          then Some (ptr (node_at 10 2 0), attempts (node_at 10 2 0) + int i + 1) else None)"
    by blast
  from this [rule_format, of 0] this [rule_format, of 1] this [rule_format, of 2] h
  show ?thesis by simp
qed

text \<open>
  The claim as written fails for a single candidate that is not lame but
  unresponsive: the cache reports a round trip time of 400, above the
  threshold of 376, and the first selection already returns none.
\<close>

theorem single_non_lame_candidate_counterexample:
  "infra_get_lame_rtt scenario_env (addr (node 12)) [] 1 0 = Some (False, False, 400) \<and>
   \<not> donotq_lookup scenario_ie (addr (node 12)) \<and>
   attempts (node 12) < OUTBOUND_MSG_RETRY scenario_macros \<and>
   run_selections scenario_macros [scenario_call] \<lparr>result_list = [node 12]\<rparr> = [None]"
proof -
  have "iter_server_selection scenario_macros scenario_ie scenario_env \<lparr>result_list = [node 12]\<rparr>
      [] 1 0 True = (None, \<lparr>result_list = [node_at 12 0 (- 1)]\<rparr>, True)"
    by (subst selection_mset_none) (simp_all add: scenario_eval)
  then show ?thesis
    by (simp add: scenario_call_def node_def scenario_env_def scenario_infra_def scenario_ie_def)
qed

section \<open>Domain names: util/data/dname.c\<close>

subsection \<open>query\_dname\_compare\<close>

text \<open>
  \<^verbatim>\<open>tolower\<close> of the C library in the C locale, on a byte: the upper case ASCII
  letters are mapped to lower case, every other byte is unchanged. The values
  are compared as non-negative \<^verbatim>\<open>int\<close>s in the source, which is the order of
  bytes as unsigned numbers.
\<close>

definition tolower :: "8 word \<Rightarrow> 8 word" where
  "tolower c = (if 0x41 \<le> c \<and> c \<le> 0x5A then c + 0x20 else c)"

text \<open>
  A pointer \<^verbatim>\<open>uint8_t*\<close> into a name is modelled by the list of the bytes from
  the pointer to the end of the object it points into; \<^verbatim>\<open>*d++\<close> takes the head.
  Reading past the end is undefined in C and is \<open>None\<close> here.

  The inner loop \<^verbatim>\<open>while(lab1--)\<close> compares \<open>lab1\<close> bytes. It ends with a
  \<^verbatim>\<open>return\<close> (\<open>Inl\<close> of the value returned) or falls through with both pointers
  advanced (\<open>Inr\<close>).
\<close>

fun compare_label ::
  "nat \<Rightarrow> 8 word list \<Rightarrow> 8 word list \<Rightarrow> (int + 8 word list \<times> 8 word list) option" where
  "compare_label 0 d1 d2 = Some (Inr (d1, d2))"
| "compare_label (Suc n) (x # d1) (y # d2) =
    (if tolower x \<noteq> tolower y then Some (Inl (if tolower x < tolower y then - 1 else 1))
     else compare_label n d1 d2)"
| "compare_label (Suc n) d1 d2 = None"

lemma compare_label_length:
  "compare_label n d1 d2 = Some (Inr (e1, e2)) \<Longrightarrow> length e1 \<le> length d1"
  by (induction n d1 d2 rule: compare_label.induct) (auto split: if_splits)

text \<open>
  The outer loop \<^verbatim>\<open>while(lab1 != 0 || lab2 != 0)\<close>, entered with the two length
  bytes just read and the pointers behind them.
\<close>

function query_dname_compare_loop ::
  "8 word \<Rightarrow> 8 word \<Rightarrow> 8 word list \<Rightarrow> 8 word list \<Rightarrow> int option" where
  "query_dname_compare_loop lab1 lab2 d1 d2 =
    (if lab1 \<noteq> 0 \<or> lab2 \<noteq> 0 then
       if lab1 \<noteq> lab2 then Some (if lab1 < lab2 then - 1 else 1)
       else
         (case compare_label (unat lab1) d1 d2 of
            None \<Rightarrow> None
          | Some (Inl r) \<Rightarrow> Some r
          | Some (Inr (e1, e2)) \<Rightarrow>
              (case e1 of
                 [] \<Rightarrow> None
               | l1 # r1 \<Rightarrow>
                   (case e2 of
                      [] \<Rightarrow> None
                    | l2 # r2 \<Rightarrow> query_dname_compare_loop l1 l2 r1 r2)))
     else Some 0)"
  by pat_completeness auto
termination
proof (relation "measure (\<lambda>(lab1, lab2, d1, d2). length d1)")
  show "wf (measure (\<lambda>(lab1, lab2, d1, d2). length d1))" by simp
next
  fix lab1 lab2 :: "8 word" and d1 d2 x2 e1 e2 r1 r2 :: "8 word list" and l1 l2 :: "8 word"
    and x2a :: "int + 8 word list \<times> 8 word list" and xb :: "8 word list \<times> 8 word list"
  assume "compare_label (unat lab1) d1 d2 = Some x2a" "x2a = Inr xb" "(e1, e2) = xb"
    "e1 = l1 # r1"
  then have "compare_label (unat lab1) d1 d2 = Some (Inr (l1 # r1, e2))" by simp
  from compare_label_length [OF this]
  show "((l1, l2, r1, r2), lab1, lab2, d1, d2) \<in> measure (\<lambda>(lab1, lab2, d1, d2). length d1)"
    by simp
qed

text \<open>\<^verbatim>\<open>query_dname_compare\<close>: reads the first length bytes and enters the loop.\<close>

definition query_dname_compare :: "8 word list \<Rightarrow> 8 word list \<Rightarrow> int option" where
  "query_dname_compare d1 d2 =
    (case d1 of
       [] \<Rightarrow> None
     | lab1 # r1 \<Rightarrow>
         (case d2 of
            [] \<Rightarrow> None
          | lab2 # r2 \<Rightarrow> query_dname_compare_loop lab1 lab2 r1 r2))"

text \<open>
  An uncompressed wire-format name is a sequence of labels, each a length byte
  from 1 to 63 followed by that many bytes, ended by the zero length byte of
  the root. \<open>wire ls\<close> is the wire format of the name with the labels \<open>ls\<close>.
\<close>

definition wire :: "8 word list list \<Rightarrow> 8 word list" where
  "wire ls = concat (map (\<lambda>l. of_nat (length l) # l) ls) @ [0]"

definition labels_ok :: "8 word list list \<Rightarrow> bool" where
  "labels_ok ls = list_all (\<lambda>l. 1 \<le> length l \<and> length l \<le> 63) ls"

text \<open>Two names are equal up to the ASCII case of their label bytes.\<close>

definition equal_up_to_case :: "8 word list list \<Rightarrow> 8 word list list \<Rightarrow> bool" where
  "equal_up_to_case ls1 ls2 = (map (map tolower) ls1 = map (map tolower) ls2)"

subsection \<open>Properties of query\_dname\_compare\<close>

declare query_dname_compare_loop.simps [simp del]

lemma compare_label_swap:
  "compare_label n d2 d1 =
     map_option (map_sum uminus prod.swap) (compare_label n d1 d2)"
proof (induction n arbitrary: d1 d2)
  case 0
  show ?case by simp
next
  case (Suc n)
  show ?case
  proof (cases d1)
    case Nil
    then show ?thesis by (cases d2) simp_all
  next
    case c1: (Cons x r1)
    show ?thesis
    proof (cases d2)
      case Nil
      with c1 show ?thesis by simp
    next
      case (Cons y r2)
      with c1 Suc.IH [of r2 r1] show ?thesis by auto
    qed
  qed
qed

lemma query_dname_compare_loop_swap:
  "query_dname_compare_loop lab2 lab1 d2 d1 =
     map_option uminus (query_dname_compare_loop lab1 lab2 d1 d2)"
proof (induction lab1 lab2 d1 d2 rule: query_dname_compare_loop.induct)
  case (1 lab1 lab2 d1 d2)
  show ?case
  proof (cases "lab1 = lab2")
    case False
    then show ?thesis
      by (auto simp: query_dname_compare_loop.simps [of lab1 lab2]
          query_dname_compare_loop.simps [of lab2 lab1])
  next
    case True
    show ?thesis
    proof (cases "lab1 = 0")
      case z: True
      with True show ?thesis by (simp add: query_dname_compare_loop.simps)
    next
      case nz: False
      show ?thesis
      proof (cases "compare_label (unat lab1) d1 d2")
        case None
        with True nz show ?thesis
          by (simp add: query_dname_compare_loop.simps [of lab2 lab2]
              compare_label_swap [of _ d2 d1])
      next
        case (Some s)
        show ?thesis
        proof (cases s)
          case (Inl r)
          with Some True nz show ?thesis
            by (simp add: query_dname_compare_loop.simps [of lab2 lab2]
                compare_label_swap [of _ d2 d1])
        next
          case (Inr p)
          obtain e1 e2 where p: "p = (e1, e2)" by (cases p) auto
          show ?thesis
          proof (cases e1)
            case Nil
            with Some Inr p True nz show ?thesis
              by (simp add: query_dname_compare_loop.simps [of lab2 lab2]
                  compare_label_swap [of _ d2 d1] split: list.splits)
          next
            case c1: (Cons l1 r1)
            show ?thesis
            proof (cases e2)
              case Nil
              with Some Inr p True nz c1 show ?thesis
                by (simp add: query_dname_compare_loop.simps [of lab2 lab2]
                    compare_label_swap [of _ d2 d1])
            next
              case c2: (Cons l2 r2)
              have ih: "query_dname_compare_loop l2 l1 r2 r1 =
                  map_option uminus (query_dname_compare_loop l1 l2 r1 r2)"
                using "1.IH" nz True Some Inr p c1 c2 by simp
              with Some Inr p True nz c1 c2 show ?thesis
                by (simp add: query_dname_compare_loop.simps [of lab2 lab2]
                    compare_label_swap [of _ d2 d1])
            qed
          qed
        qed
      qed
    qed
  qed
qed


lemma wire_Nil: "wire [] = [0]"
  by (simp add: wire_def)

lemma wire_Cons: "wire (l # ls) = of_nat (length l) # l @ wire ls"
  by (simp add: wire_def)

lemma label_byte:
  assumes "1 \<le> n" "n \<le> 63"
  shows "unat (of_nat n :: 8 word) = n" "(of_nat n :: 8 word) \<noteq> 0"
proof -
  show u: "unat (of_nat n :: 8 word) = n" using assms by (simp add: unat_of_nat)
  show "(of_nat n :: 8 word) \<noteq> 0"
  proof
    assume "(of_nat n :: 8 word) = 0"
    then have "unat (of_nat n :: 8 word) = 0" by simp
    with u assms show False by simp
  qed
qed

lemma label_byte_inj:
  assumes "1 \<le> n" "n \<le> 63" "1 \<le> k" "k \<le> 63"
  shows "((of_nat n :: 8 word) = of_nat k) = (n = k)"
proof
  assume "(of_nat n :: 8 word) = of_nat k"
  then have "unat (of_nat n :: 8 word) = unat (of_nat k :: 8 word)" by simp
  then show "n = k" using assms by (simp add: label_byte)
qed simp

lemma compare_label_labels:
  "length l1 = length l2 \<Longrightarrow>
   (map tolower l1 = map tolower l2 \<and>
      compare_label (length l1) (l1 @ r1) (l2 @ r2) = Some (Inr (r1, r2))) \<or>
   (map tolower l1 \<noteq> map tolower l2 \<and>
      (compare_label (length l1) (l1 @ r1) (l2 @ r2) = Some (Inl (- 1)) \<or>
       compare_label (length l1) (l1 @ r1) (l2 @ r2) = Some (Inl 1)))"
  by (induction l1 l2 rule: list_induct2) auto

lemma query_dname_compare_wire:
  "labels_ok ls1 \<Longrightarrow> labels_ok ls2 \<Longrightarrow>
   \<exists>r. query_dname_compare (wire ls1 @ t1) (wire ls2 @ t2) = Some r \<and>
       (r = - 1 \<or> r = 0 \<or> r = 1) \<and> ((r = 0) = equal_up_to_case ls1 ls2)"
proof (induction ls1 arbitrary: ls2)
  case Nil
  show ?case
  proof (cases ls2)
    case Nil
    then show ?thesis
      by (simp add: query_dname_compare_def wire_Nil query_dname_compare_loop.simps
          equal_up_to_case_def)
  next
    case (Cons l2 ls2')
    with Nil.prems have "1 \<le> length l2" "length l2 \<le> 63" by (simp_all add: labels_ok_def)
    from label_byte [OF this] have nz: "(of_nat (length l2) :: 8 word) \<noteq> 0" by simp
    then have "(0 :: 8 word) < of_nat (length l2)" by (simp add: word_neq_0_conv)
    with nz Cons show ?thesis
      by (simp add: query_dname_compare_def wire_Nil wire_Cons query_dname_compare_loop.simps
          equal_up_to_case_def)
  qed
next
  case (Cons l1 ls1')
  from Cons.prems have l1: "1 \<le> length l1" "length l1 \<le> 63" and ok1: "labels_ok ls1'"
    by (simp_all add: labels_ok_def)
  note b1 = label_byte [OF l1]
  show ?case
  proof (cases ls2)
    case Nil
    have "\<not> (of_nat (length l1) :: 8 word) < 0" by simp
    with b1 Nil show ?thesis
      by (simp add: query_dname_compare_def wire_Nil wire_Cons query_dname_compare_loop.simps
          equal_up_to_case_def)
  next
    case c2: (Cons l2 ls2')
    with Cons.prems have l2: "1 \<le> length l2" "length l2 \<le> 63" and ok2: "labels_ok ls2'"
      by (simp_all add: labels_ok_def)
    note b2 = label_byte [OF l2]
    show ?thesis
    proof (cases "length l1 = length l2")
      case False
      then have ne: "(of_nat (length l1) :: 8 word) \<noteq> of_nat (length l2)"
        using label_byte_inj [OF l1 l2] by simp
      from False have "map tolower l1 \<noteq> map tolower l2"
        by (metis length_map)
      with ne b1 c2 show ?thesis
        by (simp add: query_dname_compare_def wire_Cons
            query_dname_compare_loop.simps [of "of_nat (length l1)"] equal_up_to_case_def)
    next
      case True
      have e: "query_dname_compare (wire (l1 # ls1') @ t1) (wire (l2 # ls2') @ t2) =
         (case compare_label (length l1) (l1 @ wire ls1' @ t1) (l2 @ wire ls2' @ t2) of
            None \<Rightarrow> None
          | Some (Inl r) \<Rightarrow> Some r
          | Some (Inr (e1, e2)) \<Rightarrow> query_dname_compare e1 e2)"
        using True b1
        by (simp add: query_dname_compare_def wire_Cons
            query_dname_compare_loop.simps [of "of_nat (length l2)"]
            split: option.splits sum.splits list.splits)
      from compare_label_labels [OF True, of "wire ls1' @ t1" "wire ls2' @ t2"]
      show ?thesis
      proof (elim disjE conjE)
        assume eq: "map tolower l1 = map tolower l2"
          and c: "compare_label (length l1) (l1 @ wire ls1' @ t1) (l2 @ wire ls2' @ t2) =
             Some (Inr (wire ls1' @ t1, wire ls2' @ t2))"
        from Cons.IH [OF ok1 ok2] eq show ?thesis
          by (simp add: c2 e c equal_up_to_case_def)
      next
        assume "map tolower l1 \<noteq> map tolower l2"
          and "compare_label (length l1) (l1 @ wire ls1' @ t1) (l2 @ wire ls2' @ t2) =
             Some (Inl (- 1))"
        then show ?thesis by (simp add: c2 e equal_up_to_case_def)
      next
        assume "map tolower l1 \<noteq> map tolower l2"
          and "compare_label (length l1) (l1 @ wire ls1' @ t1) (l2 @ wire ls2' @ t2) =
             Some (Inl 1)"
        then show ?thesis by (simp add: c2 e equal_up_to_case_def)
      qed
    qed
  qed
qed

lemma query_dname_compare_swap:
  "query_dname_compare d2 d1 = map_option uminus (query_dname_compare d1 d2)"
proof (cases d1)
  case Nil
  then show ?thesis by (simp add: query_dname_compare_def split: list.splits)
next
  case c1: (Cons a r1)
  show ?thesis
  proof (cases d2)
    case Nil
    then show ?thesis by (simp add: query_dname_compare_def split: list.splits)
  next
    case (Cons b r2)
    with c1 query_dname_compare_loop_swap [of b a r2 r1] show ?thesis
      by (simp add: query_dname_compare_def)
  qed
qed

text \<open>
  Claim C10. For all uncompressed wire-format names with the labels \<open>ls1\<close> and
  \<open>ls2\<close> (whatever bytes \<open>t1\<close> and \<open>t2\<close> follow them in memory),
  \<^verbatim>\<open>query_dname_compare\<close> returns a value \<open>r\<close> among \<open>-1\<close>, \<open>0\<close> and \<open>1\<close>; \<open>r\<close> is
  \<open>0\<close> if and only if the names are equal up to the ASCII case of their label
  bytes; and with the arguments exchanged it returns \<open>- r\<close>, so the sign of
  the one result is the negation of the sign of the other.
\<close>

theorem query_dname_compare_zero_iff_equal_and_antisymmetric:
  assumes "labels_ok ls1" and "labels_ok ls2"
  shows "\<exists>r. query_dname_compare (wire ls1 @ t1) (wire ls2 @ t2) = Some r \<and>
       (r = - 1 \<or> r = 0 \<or> r = 1) \<and>
       ((r = 0) = equal_up_to_case ls1 ls2) \<and>
       query_dname_compare (wire ls2 @ t2) (wire ls1 @ t1) = Some (- r) \<and>
       sgn (- r) = - sgn r"
proof -
  from query_dname_compare_wire [OF assms, of t1 t2] obtain r where
    r: "query_dname_compare (wire ls1 @ t1) (wire ls2 @ t2) = Some r"
      "r = - 1 \<or> r = 0 \<or> r = 1" "(r = 0) = equal_up_to_case ls1 ls2" by blast
  have "query_dname_compare (wire ls2 @ t2) (wire ls1 @ t1) = Some (- r)"
    using query_dname_compare_swap [of "wire ls2 @ t2" "wire ls1 @ t1"] by (simp add: r(1))
  with r show ?thesis by auto
qed

text \<open>
  The names \<open>Ab.c.\<close> and \<open>aB.C.\<close> compare equal, in both directions.
\<close>

theorem query_dname_compare_zero_iff_equal_and_antisymmetric_witness:
  "labels_ok [[0x41, 0x62], [0x63]] \<and> labels_ok [[0x61, 0x42], [0x43]] \<and>
   equal_up_to_case [[0x41, 0x62], [0x63]] [[0x61, 0x42], [0x43]] \<and>
   query_dname_compare (wire [[0x41, 0x62], [0x63]] @ []) (wire [[0x61, 0x42], [0x43]] @ []) =
     Some 0 \<and>
   query_dname_compare (wire [[0x61, 0x42], [0x43]] @ []) (wire [[0x41, 0x62], [0x63]] @ []) =
     Some 0"
proof -
  have ok1: "labels_ok [[0x41, 0x62], [0x63]]" by (simp add: labels_ok_def)
  have ok2: "labels_ok [[0x61, 0x42], [0x43]]" by (simp add: labels_ok_def)
  have eq: "equal_up_to_case [[0x41, 0x62], [0x63]] [[0x61, 0x42], [0x43]]"
    by (simp add: equal_up_to_case_def tolower_def)
  from query_dname_compare_zero_iff_equal_and_antisymmetric [OF ok1 ok2, of "[]" "[]"] ok1 ok2 eq
  show ?thesis by auto
qed

subsection \<open>pkt\_dname\_len\<close>

text \<open>
  Modelled from the spec: the macros \<^verbatim>\<open>LABEL_IS_PTR\<close> and \<^verbatim>\<open>PTR_OFFSET\<close>
  (declared in \<^verbatim>\<open>util/data/msgparse.h\<close>) and the constant
  \<^verbatim>\<open>LDNS_MAX_DOMAINLEN\<close> are not among the sources. The spec speaks of
  compression pointers into a 16 KiB name space; that is the compression scheme
  of the DNS wire format, which is what the definitions follow: a length byte
  with its two top bits set starts a pointer, the offset is the remaining six
  bits followed by the next byte (14 bits), and a name has at most 255 bytes.
\<close>

definition LABEL_IS_PTR :: "8 word \<Rightarrow> bool" where
  "LABEL_IS_PTR x = (x AND 0xc0 = 0xc0)"

definition PTR_OFFSET :: "8 word \<Rightarrow> 8 word \<Rightarrow> 16 word" where
  "PTR_OFFSET x y = push_bit 8 (ucast (x AND 0x3f)) OR ucast y"

definition LDNS_MAX_DOMAINLEN :: nat where
  "LDNS_MAX_DOMAINLEN = 255"

text \<open>
  The bitmap \<^verbatim>\<open>uint8_t loop[LOOP_BITMAP_SIZE]\<close> is a function from the index to
  the byte. Only indices below \<^verbatim>\<open>LOOP_BITMAP_SIZE\<close> are ever used, because a
  pointer offset is below \<^verbatim>\<open>MAX_COMPRESS_POS\<close> (lemma \<open>bitmap_index_bound\<close>
  below; the source asserts it). \<^verbatim>\<open>memset(loop, 0, sizeof(loop))\<close> gives the
  function that is 0 everywhere. \<open>loopcheck\<close> returns the old bit and the
  updated bitmap.
\<close>

definition MAX_COMPRESS_POS :: nat where
  "MAX_COMPRESS_POS = 16384"

definition LOOP_BITMAP_SIZE :: nat where
  "LOOP_BITMAP_SIZE = MAX_COMPRESS_POS div 8"

definition bits :: "8 word list" where
  "bits = [0x1, 0x2, 0x4, 0x8, 0x10, 0x20, 0x40, 0x80]"

definition loopcheck :: "(nat \<Rightarrow> 8 word) \<Rightarrow> nat \<Rightarrow> 8 word \<times> (nat \<Rightarrow> 8 word)" where
  "loopcheck loop pos =
    (let ret = loop (pos div 8) AND bits ! (pos mod 8)
     in (ret, loop(pos div 8 := loop (pos div 8) OR bits ! (pos mod 8))))"

text \<open>
  A position is marked in the bitmap when \<open>loopcheck\<close> would return a
  non-zero value for it.
\<close>

definition marked :: "(nat \<Rightarrow> 8 word) \<Rightarrow> nat \<Rightarrow> bool" where
  "marked loop pos = (fst (loopcheck loop pos) \<noteq> 0)"

text \<open>
  The \<^verbatim>\<open>ldns_buffer\<close> of the ldns library, as far as the parser uses it: the
  bytes up to the limit of the buffer, and the read position. The functions are
  those of ldns with the same names; \<open>ldns_buffer_read_u8\<close> returns the byte
  read and the buffer with the position advanced.
\<close>

record ldns_buffer =
  b_position :: nat
  b_data :: "8 word list"

definition ldns_buffer_limit :: "ldns_buffer \<Rightarrow> nat" where
  "ldns_buffer_limit pkt = length (b_data pkt)"

definition ldns_buffer_position :: "ldns_buffer \<Rightarrow> nat" where
  "ldns_buffer_position pkt = b_position pkt"

definition ldns_buffer_remaining :: "ldns_buffer \<Rightarrow> nat" where
  "ldns_buffer_remaining pkt = ldns_buffer_limit pkt - b_position pkt"

definition ldns_buffer_read_u8 :: "ldns_buffer \<Rightarrow> 8 word \<times> ldns_buffer" where
  "ldns_buffer_read_u8 pkt = (b_data pkt ! b_position pkt, pkt\<lparr>b_position := b_position pkt + 1\<rparr>)"

definition ldns_buffer_set_position :: "ldns_buffer \<Rightarrow> nat \<Rightarrow> ldns_buffer" where
  "ldns_buffer_set_position pkt pos = pkt\<lparr>b_position := pos\<rparr>"

definition ldns_buffer_skip :: "ldns_buffer \<Rightarrow> nat \<Rightarrow> ldns_buffer" where
  "ldns_buffer_skip pkt n = pkt\<lparr>b_position := b_position pkt + n\<rparr>"

text \<open>
  The positions below \<^verbatim>\<open>MAX_COMPRESS_POS\<close> that are not yet marked: their number
  decreases with every pointer that is followed.
\<close>

definition unmarked :: "(nat \<Rightarrow> 8 word) \<Rightarrow> nat set" where
  "unmarked loop = {p. p < MAX_COMPRESS_POS \<and> \<not> marked loop p}"

lemma bits_nth: "k < 8 \<Longrightarrow> bits ! k = 2 ^ k"
proof -
  assume "k < 8"
  then consider "k = 0" | "k = 1" | "k = 2" | "k = 3" | "k = 4" | "k = 5" | "k = 6" | "k = 7"
    by linarith
  then show ?thesis by cases (simp_all add: bits_def)
qed

lemma marked_bit: "marked loop pos = bit (loop (pos div 8)) (pos mod 8)"
proof -
  have "pos mod 8 < 8" by simp
  then show ?thesis
    by (simp add: marked_def loopcheck_def Let_def bits_nth and_exp_eq_0_iff_not_bit)
qed

lemma marked_loopcheck:
  "marked (snd (loopcheck loop pos)) q = (marked loop q \<or> q = pos)"
proof -
  have p: "pos mod 8 < 8" and q: "q mod 8 < 8" by simp_all
  have eq: "(q div 8 = pos div 8 \<and> q mod 8 = pos mod 8) = (q = pos)"
    by (metis div_mult_mod_eq)
  show ?thesis
    using p q eq
    by (auto simp: marked_bit loopcheck_def Let_def bits_nth bit_or_iff bit_exp_iff)
qed

lemma ptr_offset_bound: "unat (PTR_OFFSET x y) < MAX_COMPRESS_POS"
proof -
  have "PTR_OFFSET x y AND mask 14 = PTR_OFFSET x y"
  proof (rule bit_word_eqI)
    fix n
    assume n: "n < LENGTH(16)"
    show "bit (PTR_OFFSET x y AND mask 14) n = bit (PTR_OFFSET x y) n"
    proof (cases "n < 14")
      case True
      then show ?thesis by (simp add: bit_and_iff bit_mask_iff)
    next
      case False
      then have "\<not> n - 8 < 6" by linarith
      then have "\<not> bit (mask 6 :: 8 word) (n - 8)" by (simp add: bit_mask_iff)
      then have "\<not> bit (63 :: 8 word) (n - 8)" by (simp add: mask_eq_exp_minus_1)
      moreover have n8: "\<not> n < 8" using False by linarith
      moreover have "\<not> bit y n" using n8 bit_imp_le_length [of y n] by auto
      ultimately have "\<not> bit (PTR_OFFSET x y) n"
        by (simp add: PTR_OFFSET_def bit_or_iff bit_push_bit_iff bit_ucast_iff bit_and_iff)
      then show ?thesis by (simp add: bit_and_iff)
    qed
  qed
  then have "uint (PTR_OFFSET x y) < 2 ^ 14" by (simp only: mask_eq_iff)
  then have "uint (PTR_OFFSET x y) < 16384" by simp
  then have "nat (uint (PTR_OFFSET x y)) < 16384" by linarith
  then show ?thesis by (simp only: MAX_COMPRESS_POS_def unat_eq_nat_uint)
qed

lemma unmarked_loopcheck:
  assumes "fst (loopcheck loop (unat (PTR_OFFSET x y))) = 0"
  shows "card (unmarked (snd (loopcheck loop (unat (PTR_OFFSET x y))))) < card (unmarked loop)"
proof -
  let ?p = "unat (PTR_OFFSET x y)"
  have fin: "finite (unmarked loop)" by (simp add: unmarked_def)
  have "?p \<in> unmarked loop"
    using assms ptr_offset_bound [of x y] by (simp add: unmarked_def marked_def)
  moreover have "unmarked (snd (loopcheck loop ?p)) = unmarked loop - {?p}"
    by (auto simp: unmarked_def marked_loopcheck)
  ultimately show ?thesis using fin by (metis card_Diff1_less)
qed

text \<open>
  The loop \<^verbatim>\<open>while(1)\<close> of \<^verbatim>\<open>pkt_dname_len\<close> with its variables \<open>len\<close>,
  \<open>loop\<close> and \<open>endpos\<close>. The result is the value returned (0 for a parse
  failure) and the buffer with the position the function leaves. The loop
  terminates on every buffer: a pointer that is followed marks a position that
  was not marked, and a label moves the position towards the limit.
\<close>

function pkt_dname_len_loop ::
  "ldns_buffer \<Rightarrow> nat \<Rightarrow> (nat \<Rightarrow> 8 word) \<Rightarrow> nat \<Rightarrow> nat \<times> ldns_buffer" where
  "pkt_dname_len_loop pkt len loop endpos =
    (if ldns_buffer_remaining pkt < 1 then (0, pkt)
     else
       case ldns_buffer_read_u8 pkt of (labellen, pkt1) \<Rightarrow>
         if LABEL_IS_PTR labellen then
           (if ldns_buffer_remaining pkt1 < 1 then (0, pkt1)
            else
              case ldns_buffer_read_u8 pkt1 of (b, pkt2) \<Rightarrow>
                case loopcheck loop (unat (PTR_OFFSET labellen b)) of (ret, loop') \<Rightarrow>
                  if ret \<noteq> 0 then (0, pkt2)
                  else if ldns_buffer_limit pkt2 \<le> unat (PTR_OFFSET labellen b) then (0, pkt2)
                  else
                    pkt_dname_len_loop
                      (ldns_buffer_set_position pkt2 (unat (PTR_OFFSET labellen b))) len loop'
                      (if endpos = 0 then ldns_buffer_position pkt2 else endpos))
         else
           if labellen > 0x3f then (0, pkt1)
           else if len + (1 + unat labellen) > LDNS_MAX_DOMAINLEN then (0, pkt1)
           else if labellen = 0 then
             (len + (1 + unat labellen),
              if endpos \<noteq> 0 then ldns_buffer_set_position pkt1 endpos else pkt1)
           else if ldns_buffer_remaining pkt1 < unat labellen then (0, pkt1)
           else
             pkt_dname_len_loop (ldns_buffer_skip pkt1 (unat labellen))
               (len + (1 + unat labellen)) loop endpos)"
  by pat_completeness auto
termination
proof (relation "measures [\<lambda>(pkt, len, loop, endpos). card (unmarked loop),
    \<lambda>(pkt, len, loop, endpos). ldns_buffer_limit pkt - b_position pkt]")
  show "wf (measures [\<lambda>(pkt, len, loop, endpos). card (unmarked loop),
    \<lambda>(pkt, len, loop, endpos). ldns_buffer_limit pkt - b_position pkt])" by simp
next
  fix pkt :: ldns_buffer and len :: nat and loop :: "nat \<Rightarrow> 8 word" and endpos :: nat
    and labellen b ret :: "8 word" and pkt2 :: ldns_buffer and loop' :: "nat \<Rightarrow> 8 word"
  assume "(ret, loop') = loopcheck loop (unat (PTR_OFFSET labellen b))" "\<not> ret \<noteq> 0"
  then have "fst (loopcheck loop (unat (PTR_OFFSET labellen b))) = 0"
    "loop' = snd (loopcheck loop (unat (PTR_OFFSET labellen b)))"
    by (metis fst_conv, metis snd_conv)
  with unmarked_loopcheck [of loop labellen b]
  show "((ldns_buffer_set_position pkt2 (unat (PTR_OFFSET labellen b)), len, loop',
      if endpos = 0 then ldns_buffer_position pkt2 else endpos), pkt, len, loop, endpos)
    \<in> measures [\<lambda>(pkt, len, loop, endpos). card (unmarked loop),
      \<lambda>(pkt, len, loop, endpos). ldns_buffer_limit pkt - b_position pkt]"
    by simp
next
  fix pkt :: ldns_buffer and len :: nat and loop :: "nat \<Rightarrow> 8 word" and endpos :: nat
    and labellen :: "8 word" and pkt1 :: ldns_buffer
  assume "\<not> ldns_buffer_remaining pkt < 1" "(labellen, pkt1) = ldns_buffer_read_u8 pkt"
    "\<not> ldns_buffer_remaining pkt1 < unat labellen"
  then show "((ldns_buffer_skip pkt1 (unat labellen), len + (1 + unat labellen), loop, endpos),
      pkt, len, loop, endpos)
    \<in> measures [\<lambda>(pkt, len, loop, endpos). card (unmarked loop),
      \<lambda>(pkt, len, loop, endpos). ldns_buffer_limit pkt - b_position pkt]"
    by (auto simp: ldns_buffer_remaining_def ldns_buffer_read_u8_def ldns_buffer_skip_def
        ldns_buffer_limit_def)
qed

text \<open>
\<^verbatim>\<open>pkt_dname_len\<close>: the loop, entered with \<open>len = 0\<close>, the cleared bitmap
  and \<open>endpos = 0\<close>.
\<close>

definition pkt_dname_len :: "ldns_buffer \<Rightarrow> nat \<times> ldns_buffer" where
  "pkt_dname_len pkt = pkt_dname_len_loop pkt 0 (\<lambda>i. 0) 0"

declare pkt_dname_len_loop.simps [simp del]

subsection \<open>The wire name that a buffer holds\<close>

text \<open>
  To say what a malformed name is without the parser: the steps of the name
  that starts at \<open>pos\<close>, read off the bytes \<open>d\<close> for at most \<open>n\<close> steps. A
  step is a compression pointer with its target or a label with its length
  byte. The walk follows pointers and skips label contents; it checks neither
  loops nor lengths and stops only where the name ends (the root label), where
  the bytes run out, at a length byte that is no legal label length, or at a
  pointer beyond the bytes.
\<close>

datatype wire_step = Ptr nat | Label "8 word"

fun wire_walk :: "8 word list \<Rightarrow> nat \<Rightarrow> nat \<Rightarrow> wire_step list" where
  "wire_walk d 0 pos = []"
| "wire_walk d (Suc n) pos =
    (if length d \<le> pos then []
     else if LABEL_IS_PTR (d ! pos) then
       (if length d \<le> pos + 1 then []
        else
          Ptr (unat (PTR_OFFSET (d ! pos) (d ! (pos + 1)))) #
          (if unat (PTR_OFFSET (d ! pos) (d ! (pos + 1))) < length d
           then wire_walk d n (unat (PTR_OFFSET (d ! pos) (d ! (pos + 1)))) else []))
     else
       Label (d ! pos) #
       (if d ! pos = 0 \<or> 0x3f < d ! pos \<or> length d - (pos + 1) < unat (d ! pos) then []
        else wire_walk d n (pos + 1 + unat (d ! pos))))"

fun pointers_of :: "wire_step list \<Rightarrow> nat list" where
  "pointers_of [] = []"
| "pointers_of (Ptr p # w) = p # pointers_of w"
| "pointers_of (Label l # w) = pointers_of w"

fun step_len :: "wire_step \<Rightarrow> nat" where
  "step_len (Ptr p) = 0"
| "step_len (Label l) = 1 + unat l"

definition has_pointer_loop :: "8 word list \<Rightarrow> nat \<Rightarrow> bool" where
  "has_pointer_loop d pos = (\<exists>n. \<not> distinct (pointers_of (wire_walk d n pos)))"

definition has_pointer_out_of_bounds :: "8 word list \<Rightarrow> nat \<Rightarrow> bool" where
  "has_pointer_out_of_bounds d pos =
     (\<exists>n. \<exists>p \<in> set (pointers_of (wire_walk d n pos)). length d \<le> p)"

definition has_long_label :: "8 word list \<Rightarrow> nat \<Rightarrow> bool" where
  "has_long_label d pos = (\<exists>n l. Label l \<in> set (wire_walk d n pos) \<and> 0x3f < l)"

definition name_too_long :: "8 word list \<Rightarrow> nat \<Rightarrow> bool" where
  "name_too_long d pos =
     (\<exists>n. LDNS_MAX_DOMAINLEN < sum_list (map step_len (wire_walk d n pos)))"

text \<open>
  For the induction: what makes the rest of a walk fail, given the bitmap and
  the length accumulated so far.
\<close>

definition bad_walk :: "8 word list \<Rightarrow> (nat \<Rightarrow> 8 word) \<Rightarrow> nat \<Rightarrow> wire_step list \<Rightarrow> bool" where
  "bad_walk d loop len w =
     (\<not> distinct (pointers_of w) \<or> (\<exists>p \<in> set (pointers_of w). marked loop p) \<or>
      (\<exists>p \<in> set (pointers_of w). length d \<le> p) \<or> (\<exists>l. Label l \<in> set w \<and> 0x3f < l) \<or>
      LDNS_MAX_DOMAINLEN < len + sum_list (map step_len w))"

subsection \<open>Properties of pkt\_dname\_len\<close>

lemma pkt_dname_len_loop_unfold:
  "pkt_dname_len_loop pkt len loop endpos =
    (if length (b_data pkt) \<le> b_position pkt then (0, pkt)
     else if LABEL_IS_PTR (b_data pkt ! b_position pkt) then
       (if length (b_data pkt) \<le> b_position pkt + 1
        then (0, pkt\<lparr>b_position := b_position pkt + 1\<rparr>)
        else if marked loop
             (unat (PTR_OFFSET (b_data pkt ! b_position pkt) (b_data pkt ! (b_position pkt + 1))))
        then (0, pkt\<lparr>b_position := b_position pkt + 2\<rparr>)
        else if length (b_data pkt) \<le>
             unat (PTR_OFFSET (b_data pkt ! b_position pkt) (b_data pkt ! (b_position pkt + 1)))
        then (0, pkt\<lparr>b_position := b_position pkt + 2\<rparr>)
        else
          pkt_dname_len_loop
            (pkt\<lparr>b_position :=
               unat (PTR_OFFSET (b_data pkt ! b_position pkt) (b_data pkt ! (b_position pkt + 1)))\<rparr>)
            len
            (snd (loopcheck loop
               (unat (PTR_OFFSET (b_data pkt ! b_position pkt) (b_data pkt ! (b_position pkt + 1))))))
            (if endpos = 0 then b_position pkt + 2 else endpos))
     else if 0x3f < b_data pkt ! b_position pkt then (0, pkt\<lparr>b_position := b_position pkt + 1\<rparr>)
     else if LDNS_MAX_DOMAINLEN < len + (1 + unat (b_data pkt ! b_position pkt))
     then (0, pkt\<lparr>b_position := b_position pkt + 1\<rparr>)
     else if b_data pkt ! b_position pkt = 0
     then (len + 1,
           if endpos \<noteq> 0 then pkt\<lparr>b_position := endpos\<rparr>
           else pkt\<lparr>b_position := b_position pkt + 1\<rparr>)
     else if length (b_data pkt) - (b_position pkt + 1) < unat (b_data pkt ! b_position pkt)
     then (0, pkt\<lparr>b_position := b_position pkt + 1\<rparr>)
     else
       pkt_dname_len_loop
         (pkt\<lparr>b_position := b_position pkt + 1 + unat (b_data pkt ! b_position pkt)\<rparr>)
         (len + (1 + unat (b_data pkt ! b_position pkt))) loop endpos)"
  by (subst pkt_dname_len_loop.simps)
    (auto simp: ldns_buffer_remaining_def ldns_buffer_limit_def ldns_buffer_read_u8_def
      ldns_buffer_set_position_def ldns_buffer_skip_def ldns_buffer_position_def marked_def
      split: prod.splits)


lemma bad_walk_Nil: "len \<le> LDNS_MAX_DOMAINLEN \<Longrightarrow> \<not> bad_walk d loop len []"
  by (simp add: bad_walk_def)

lemma bad_walk_Ptr:
  assumes "bad_walk d loop len (Ptr p # w)" and "\<not> marked loop p" and "\<not> length d \<le> p"
  shows "bad_walk d (snd (loopcheck loop p)) len w"
  using assms by (auto simp: bad_walk_def marked_loopcheck)

lemma bad_walk_Label:
  assumes "bad_walk d loop len (Label l # w)" and "\<not> 0x3f < l"
  shows "bad_walk d loop (len + (1 + unat l)) w"
  using assms by (auto simp: bad_walk_def add.assoc)

lemma pkt_dname_len_loop_bad:
  "len \<le> LDNS_MAX_DOMAINLEN \<Longrightarrow>
   bad_walk (b_data pkt) loop len (wire_walk (b_data pkt) n (b_position pkt)) \<Longrightarrow>
   fst (pkt_dname_len_loop pkt len loop endpos) = 0"
proof (induction n arbitrary: pkt len loop endpos)
  case 0
  then show ?case by (simp add: bad_walk_Nil)
next
  case (Suc n)
  let ?d = "b_data pkt" and ?pos = "b_position pkt"
  note len = Suc.prems(1) and bad = Suc.prems(2)
  show ?case
  proof (cases "length ?d \<le> ?pos")
    case True
    then show ?thesis by (subst pkt_dname_len_loop_unfold) simp
  next
    case inb: False
    show ?thesis
    proof (cases "LABEL_IS_PTR (?d ! ?pos)")
      case True
      let ?p = "unat (PTR_OFFSET (?d ! ?pos) (?d ! (?pos + 1)))"
      show ?thesis
      proof (cases "length ?d \<le> ?pos + 1 \<or> marked loop ?p \<or> length ?d \<le> ?p")
        case stop: True
        with inb True show ?thesis by (subst pkt_dname_len_loop_unfold) auto
      next
        case go: False
        with inb True bad
        have "bad_walk ?d loop len (Ptr ?p # wire_walk ?d n ?p)" by simp
        with go have "bad_walk ?d (snd (loopcheck loop ?p)) len (wire_walk ?d n ?p)"
          by (intro bad_walk_Ptr) simp_all
        then have "fst (pkt_dname_len_loop (pkt\<lparr>b_position := ?p\<rparr>) len
            (snd (loopcheck loop ?p)) (if endpos = 0 then ?pos + 2 else endpos)) = 0"
          using Suc.IH [OF len, of "pkt\<lparr>b_position := ?p\<rparr>"] by simp
        with inb True go show ?thesis by (subst pkt_dname_len_loop_unfold) simp
      qed
    next
      case lab: False
      let ?l = "?d ! ?pos"
      show ?thesis
      proof (cases "0x3f < ?l \<or> LDNS_MAX_DOMAINLEN < len + (1 + unat ?l)")
        case True
        with inb lab show ?thesis by (subst pkt_dname_len_loop_unfold) auto
      next
        case ok: False
        then have len': "len + (1 + unat ?l) \<le> LDNS_MAX_DOMAINLEN" by simp
        show ?thesis
        proof (cases "?l = 0")
          case True
          with inb lab bad have "bad_walk ?d loop len [Label 0]" by simp
          with ok True have False by (simp add: bad_walk_def)
          then show ?thesis ..
        next
          case nz: False
          show ?thesis
          proof (cases "length ?d - (?pos + 1) < unat ?l")
            case True
            with inb lab ok nz show ?thesis by (subst pkt_dname_len_loop_unfold) simp
          next
            case False
            with inb lab ok nz bad
            have "bad_walk ?d loop len (Label ?l # wire_walk ?d n (?pos + 1 + unat ?l))"
              by simp
            with ok have "bad_walk ?d loop (len + (1 + unat ?l))
                (wire_walk ?d n (?pos + 1 + unat ?l))"
              by (intro bad_walk_Label) simp_all
            then have "fst (pkt_dname_len_loop (pkt\<lparr>b_position := ?pos + 1 + unat ?l\<rparr>)
                (len + (1 + unat ?l)) loop endpos) = 0"
              using Suc.IH [OF len', of "pkt\<lparr>b_position := ?pos + 1 + unat ?l\<rparr>"] by simp
            with inb lab ok nz False show ?thesis
              by (subst pkt_dname_len_loop_unfold) simp
          qed
        qed
      qed
    qed
  qed
qed

lemma not_marked_initially: "\<not> marked (\<lambda>i. 0) q"
  by (simp add: marked_def loopcheck_def)

lemma bitmap_index_bound: "unat (PTR_OFFSET x y) div 8 < LOOP_BITMAP_SIZE"
  using ptr_offset_bound [of x y] by (simp add: LOOP_BITMAP_SIZE_def MAX_COMPRESS_POS_def)

text \<open>
  Claim C8. \<^verbatim>\<open>pkt_dname_len\<close> is a total function: its loop terminates on
  every buffer (the termination proof above). Pointer positions index a bitmap
  of \<^verbatim>\<open>LOOP_BITMAP_SIZE\<close> bytes, one bit per position below 16384; nothing is
  marked at the start, and after \<open>loopcheck\<close> at \<open>p\<close> exactly \<open>p\<close> is marked in
  addition. The function returns 0 whenever the wire name contains a
  compression-pointer loop (some pointer target occurs twice on the walk), a
  pointer beyond the limit of the buffer, a label length above \<open>0x3f\<close>, or more
  bytes than \<^verbatim>\<open>LDNS_MAX_DOMAINLEN\<close>.
\<close>

theorem pkt_dname_len_rejects_malformed_names:
  "unat (PTR_OFFSET x y) div 8 < LOOP_BITMAP_SIZE \<and>
   \<not> marked (\<lambda>i. 0) q \<and>
   marked (snd (loopcheck loop p)) q = (marked loop q \<or> q = p) \<and>
   (has_pointer_loop (b_data pkt) (b_position pkt) \<or>
    has_pointer_out_of_bounds (b_data pkt) (b_position pkt) \<or>
    has_long_label (b_data pkt) (b_position pkt) \<or>
    name_too_long (b_data pkt) (b_position pkt) \<longrightarrow>
    fst (pkt_dname_len pkt) = 0)"
proof -
  have "fst (pkt_dname_len pkt) = 0"
    if "has_pointer_loop (b_data pkt) (b_position pkt) \<or>
      has_pointer_out_of_bounds (b_data pkt) (b_position pkt) \<or>
      has_long_label (b_data pkt) (b_position pkt) \<or>
      name_too_long (b_data pkt) (b_position pkt)"
  proof -
    from that obtain n where
      "bad_walk (b_data pkt) (\<lambda>i. 0) 0 (wire_walk (b_data pkt) n (b_position pkt))"
      unfolding has_pointer_loop_def has_pointer_out_of_bounds_def has_long_label_def
        name_too_long_def bad_walk_def
      by auto
    then show ?thesis
      unfolding pkt_dname_len_def by (intro pkt_dname_len_loop_bad) simp_all
  qed
  with bitmap_index_bound [of x y] not_marked_initially [of q] marked_loopcheck [of loop p q]
  show ?thesis by blast
qed

text \<open>
  A pointer that points to itself is a loop, and the function returns 0.
\<close>

lemma wire_walk_self_pointer:
  "wire_walk [0xc0, 0] (Suc (Suc 0)) 0 = [Ptr 0, Ptr 0]"
  by (simp add: LABEL_IS_PTR_def PTR_OFFSET_def)

theorem pkt_dname_len_rejects_malformed_names_witness:
  "has_pointer_loop (b_data \<lparr>b_position = 0, b_data = [0xc0, 0]\<rparr>)
     (b_position \<lparr>b_position = 0, b_data = [0xc0, 0]\<rparr>) \<and>
   fst (pkt_dname_len \<lparr>b_position = 0, b_data = [0xc0, 0]\<rparr>) = 0"
proof -
  have "\<not> distinct (pointers_of (wire_walk [0xc0, 0] (Suc (Suc 0)) 0))"
    by (simp only: wire_walk_self_pointer) simp
  then have l: "has_pointer_loop (b_data \<lparr>b_position = 0, b_data = [0xc0, 0]\<rparr>)
     (b_position \<lparr>b_position = 0, b_data = [0xc0, 0]\<rparr>)"
    unfolding has_pointer_loop_def by (simp only: ldns_buffer.simps) blast
  with pkt_dname_len_rejects_malformed_names [of _ _ _ _ _ "\<lparr>b_position = 0, b_data = [0xc0, 0]\<rparr>"]
  show ?thesis by blast
qed

text \<open>
  A well-formed compressed name, for comparison: the label \<open>b\<close> at position 3
  followed by a pointer to the name \<open>a.\<close> at position 0 has length 5, and the
  position is left behind the pointer.
\<close>

lemma pkt_dname_len_example:
  "pkt_dname_len \<lparr>b_position = 3, b_data = [1, 0x61, 0, 1, 0x62, 0xc0, 0]\<rparr> =
     (5, \<lparr>b_position = 7, b_data = [1, 0x61, 0, 1, 0x62, 0xc0, 0]\<rparr>)"
  by (simp add: pkt_dname_len_def pkt_dname_len_loop_unfold LABEL_IS_PTR_def PTR_OFFSET_def
      LDNS_MAX_DOMAINLEN_def marked_def loopcheck_def bits_def)

section \<open>Serviced queries: services/outside\_network\<close>

text \<open>
  The header \<^verbatim>\<open>services/outside_network.h\<close> declares the data; the functions
  are defined in a file that is not among the sources, and are modelled from
  the spec.

  \<^verbatim>\<open>enum serviced_query_status\<close>, \<^verbatim>\<open>struct service_callback\<close> and
  \<^verbatim>\<open>struct serviced_query\<close> of the header. A callback function and its argument
  are identified by numbers. Of \<^verbatim>\<open>struct outside_network\<close> only the index
  \<open>serviced\<close> of serviced queries matters here: the entries of the tree, as a
  list. The key of an entry is its query buffer, its destination and its dnssec
  flag.
\<close>

datatype serviced_query_status =
  serviced_initial
  | serviced_query_UDP_EDNS
  | serviced_query_UDP
  | serviced_query_TCP_EDNS
  | serviced_query_TCP

record service_callback =
  cb :: nat
  cb_arg :: nat

record serviced_query =
  qbuf :: "8 word list"
  dnssec :: bool
  sq_addr :: sockaddr
  status :: serviced_query_status
  to_be_deleted :: bool
  retry :: int
  cblist :: "service_callback list"

type_synonym serviced_key = "8 word list \<times> sockaddr \<times> bool"

definition serviced_key_of :: "serviced_query \<Rightarrow> serviced_key" where
  "serviced_key_of sq = (qbuf sq, sq_addr sq, dnssec sq)"

record serviced_index =
  serviced :: "serviced_query list"

text \<open>
  What a submission does: it attaches the subscriber to an entry, creates an
  entry, or finds the subscriber already on the list.
\<close>

datatype submit_outcome = Attached | Created | Already_subscribed

text \<open>
  Modelled from the spec: the lookup in the serviced index by the key (qbuf,
  destination, dnssec flag); its definition is in the missing
  \<^verbatim>\<open>outside_network.c\<close>.
\<close>

definition lookup_serviced :: "serviced_index \<Rightarrow> serviced_key \<Rightarrow> serviced_query option" where
  "lookup_serviced outnet k = find (\<lambda>sq. serviced_key_of sq = k) (serviced outnet)"

text \<open>
  Modelled from the spec: duplicate-subscriber detection, missing with
  \<^verbatim>\<open>outside_network.c\<close>. The caller supplies an equality predicate over
  subscriber arguments; the test is whether a subscriber with an equal argument
  is already on the list.
\<close>

definition callback_list_find ::
  "serviced_query \<Rightarrow> nat \<Rightarrow> (nat \<Rightarrow> nat \<Rightarrow> bool) \<Rightarrow> bool" where
  "callback_list_find sq arg arg_compare = list_ex (\<lambda>c. arg_compare arg (cb_arg c)) (cblist sq)"

text \<open>
  Modelled from the spec: the creation of an entry, missing with
  \<^verbatim>\<open>outside_network.c\<close>. A new entry is in state \<^emph>\<open>initial\<close>, with the first
  subscriber on its list.
\<close>

definition serviced_create ::
  "8 word list \<Rightarrow> bool \<Rightarrow> sockaddr \<Rightarrow> service_callback \<Rightarrow> serviced_query" where
  "serviced_create q d a c =
     \<lparr>qbuf = q, dnssec = d, sq_addr = a, status = serviced_initial, to_be_deleted = False,
      retry = 0, cblist = [c]\<rparr>"

text \<open>
  Modelled from the spec: \<^verbatim>\<open>outnet_serviced_query\<close>, declared in the header and
  defined in the missing \<^verbatim>\<open>outside_network.c\<close>. Attach-or-create: if an entry
  with the same key exists, the new (callback, arg) is appended to its
  subscriber list, unless a subscriber with an equal argument already exists,
  in which case the submission is not a second subscription; otherwise a new
  entry is inserted in state \<^emph>\<open>initial\<close> and a wire query is synthesized for it.
  The result is the outcome with the entry that serves the submission, the index
  afterwards, and the keys of the entries for which a wire query is sent.
\<close>

definition outnet_serviced_query ::
  "serviced_index \<Rightarrow> 8 word list \<Rightarrow> bool \<Rightarrow> sockaddr \<Rightarrow> nat \<Rightarrow> nat \<Rightarrow>
   (nat \<Rightarrow> nat \<Rightarrow> bool) \<Rightarrow>
   (submit_outcome \<times> serviced_query) \<times> serviced_index \<times> serviced_key list" where
  "outnet_serviced_query outnet q d a callback callback_arg arg_compare =
    (case lookup_serviced outnet (q, a, d) of
       Some sq \<Rightarrow>
         if callback_list_find sq callback_arg arg_compare
         then ((Already_subscribed, sq), outnet, [])
         else
           let sq' = sq\<lparr>cblist := cblist sq @ [\<lparr>cb = callback, cb_arg = callback_arg\<rparr>]\<rparr>
           in ((Attached, sq'),
               outnet\<lparr>serviced :=
                 map (\<lambda>e. if serviced_key_of e = (q, a, d) then sq' else e) (serviced outnet)\<rparr>,
               [])
     | None \<Rightarrow>
         let sq = serviced_create q d a \<lparr>cb = callback, cb_arg = callback_arg\<rparr>
         in ((Created, sq), outnet\<lparr>serviced := serviced outnet @ [sq]\<rparr>, [(q, a, d)]))"

text \<open>
  Modelled from the spec: an entry leaves the index when its subscriber list
  empties or after the fan-out of a terminal outcome.
\<close>

definition serviced_delete :: "serviced_index \<Rightarrow> serviced_key \<Rightarrow> serviced_index" where
  "serviced_delete outnet k =
     outnet\<lparr>serviced := filter (\<lambda>e. serviced_key_of e \<noteq> k) (serviced outnet)\<rparr>"

text \<open>
  At most one entry per key.
\<close>

definition one_entry_per_key :: "serviced_index \<Rightarrow> bool" where
  "one_entry_per_key outnet = distinct (map serviced_key_of (serviced outnet))"

text \<open>
  The operations that change the index, and a run of them with one equality
  predicate for the subscriber arguments.
\<close>

record submission =
  sub_qbuf :: "8 word list"
  sub_dnssec :: bool
  sub_addr :: sockaddr
  sub_cb :: nat
  sub_arg :: nat

datatype serviced_op = Submit submission | Delete serviced_key

fun serviced_run ::
  "(nat \<Rightarrow> nat \<Rightarrow> bool) \<Rightarrow> serviced_index \<Rightarrow> serviced_op list \<Rightarrow> serviced_index" where
  "serviced_run eq outnet [] = outnet"
| "serviced_run eq outnet (Submit s # ops) =
     serviced_run eq
       (fst (snd (outnet_serviced_query outnet (sub_qbuf s) (sub_dnssec s) (sub_addr s) (sub_cb s)
          (sub_arg s) eq))) ops"
| "serviced_run eq outnet (Delete k # ops) = serviced_run eq (serviced_delete outnet k) ops"

text \<open>
  An index with one entry, in state UDP with EDNS, that has one subscriber with
  the argument 7.
\<close>

definition example_index :: serviced_index where
  "example_index =
     \<lparr>serviced = [\<lparr>qbuf = [1, 0x61, 0], dnssec = True, sq_addr = IP4 10,
        status = serviced_query_UDP_EDNS, to_be_deleted = False, retry = 0,
        cblist = [\<lparr>cb = 1, cb_arg = 7\<rparr>]\<rparr>]\<rparr>"

subsection \<open>Properties of the submission\<close>

lemma find_key:
  "find (\<lambda>sq. serviced_key_of sq = k) l = Some sq \<Longrightarrow> sq \<in> set l \<and> serviced_key_of sq = k"
  by (induction l) (auto split: if_splits)

lemma find_none_key:
  "find (\<lambda>sq. serviced_key_of sq = k) l = None \<Longrightarrow> k \<notin> set (map serviced_key_of l)"
  by (induction l) (auto split: if_splits)

lemma map_keys_replace:
  "serviced_key_of sq' = k \<Longrightarrow>
   map serviced_key_of (map (\<lambda>e. if serviced_key_of e = k then sq' else e) l) =
   map serviced_key_of l"
  by (induction l) auto

lemma key_cblist_upd [simp]:
  "serviced_key_of (sq\<lparr>cblist := c\<rparr>) = serviced_key_of sq"
  by (simp add: serviced_key_of_def)

lemma submit_keeps_one_entry_per_key:
  assumes "one_entry_per_key outnet"
  shows "one_entry_per_key (fst (snd (outnet_serviced_query outnet q d a c arg eq)))"
proof (cases "lookup_serviced outnet (q, a, d)")
  case None
  then have "(q, a, d) \<notin> set (map serviced_key_of (serviced outnet))"
    unfolding lookup_serviced_def by (rule find_none_key)
  with assms None show ?thesis
    by (simp add: outnet_serviced_query_def one_entry_per_key_def Let_def serviced_create_def
        serviced_key_of_def)
next
  case (Some sq)
  then have k: "serviced_key_of sq = (q, a, d)"
    unfolding lookup_serviced_def using find_key by blast
  with assms Some show ?thesis
    by (simp add: outnet_serviced_query_def one_entry_per_key_def Let_def map_keys_replace
        del: map_map)
qed

lemma delete_keeps_one_entry_per_key:
  "one_entry_per_key outnet \<Longrightarrow> one_entry_per_key (serviced_delete outnet k)"
  by (simp add: one_entry_per_key_def serviced_delete_def distinct_map_filter)

lemma run_keeps_one_entry_per_key:
  "one_entry_per_key outnet \<Longrightarrow> one_entry_per_key (serviced_run eq outnet ops)"
proof (induction ops arbitrary: outnet)
  case Nil
  then show ?case by simp
next
  case (Cons x ops)
  then show ?case
    by (cases x) (simp_all add: submit_keeps_one_entry_per_key delete_keeps_one_entry_per_key)
qed


lemma find_replaced:
  "find (\<lambda>e. serviced_key_of e = k) l = Some sq \<Longrightarrow> serviced_key_of h = k \<Longrightarrow>
   find (\<lambda>e. serviced_key_of e = k) (map (\<lambda>e. if serviced_key_of e = k then h else e) l) = Some h"
  by (induction l) (auto split: if_splits)

text \<open>
  Claim C7, as amended. For every submission to an index with at most one entry
  per key: if an entry with the same key exists and no subscriber with an equal
  argument is on its list, the (callback, arg) pair is appended to that entry's
  list, the entry is returned, the other entries and the keys of the index are
  unchanged and no wire query is sent; if a subscriber with an equal argument
  is on the list, nothing changes and no wire query is sent; if no entry has
  the key, a new entry in state \<^emph>\<open>initial\<close> with this one subscriber is inserted
  and one wire query is sent. In every case the index has at most one entry per
  key afterwards, and keeps that property under any further submissions and
  removals. (The claim as written has every submission to an existing entry
  append its pair.)
\<close>

theorem serviced_query_attach_or_create:
  assumes inv: "one_entry_per_key outnet"
    and r: "outnet_serviced_query outnet q d a callback arg eq = ((res, h), outnet', sends)"
  shows "(\<forall>sq. lookup_serviced outnet (q, a, d) = Some sq \<and> \<not> callback_list_find sq arg eq \<longrightarrow>
       res = Attached \<and> h = sq\<lparr>cblist := cblist sq @ [\<lparr>cb = callback, cb_arg = arg\<rparr>]\<rparr> \<and>
       serviced outnet' =
         map (\<lambda>e. if serviced_key_of e = (q, a, d) then h else e) (serviced outnet) \<and>
       map serviced_key_of (serviced outnet') = map serviced_key_of (serviced outnet) \<and>
       lookup_serviced outnet' (q, a, d) = Some h \<and> sends = []) \<and>
    (\<forall>sq. lookup_serviced outnet (q, a, d) = Some sq \<and> callback_list_find sq arg eq \<longrightarrow>
       res = Already_subscribed \<and> h = sq \<and> outnet' = outnet \<and> sends = []) \<and>
    (lookup_serviced outnet (q, a, d) = None \<longrightarrow>
       res = Created \<and> status h = serviced_initial \<and>
       cblist h = [\<lparr>cb = callback, cb_arg = arg\<rparr>] \<and> serviced_key_of h = (q, a, d) \<and>
       serviced outnet' = serviced outnet @ [h] \<and> sends = [(q, a, d)]) \<and>
    one_entry_per_key outnet' \<and>
    (\<forall>ops. one_entry_per_key (serviced_run eq outnet' ops))"
proof -
  have o': "outnet' = fst (snd (outnet_serviced_query outnet q d a callback arg eq))"
    by (simp add: r)
  have inv': "one_entry_per_key outnet'"
    unfolding o' by (rule submit_keeps_one_entry_per_key [OF inv])
  then have run: "\<forall>ops. one_entry_per_key (serviced_run eq outnet' ops)"
    by (simp add: run_keeps_one_entry_per_key)
  have att: "res = Attached \<and> h = sq\<lparr>cblist := cblist sq @ [\<lparr>cb = callback, cb_arg = arg\<rparr>]\<rparr> \<and>
       serviced outnet' =
         map (\<lambda>e. if serviced_key_of e = (q, a, d) then h else e) (serviced outnet) \<and>
       map serviced_key_of (serviced outnet') = map serviced_key_of (serviced outnet) \<and>
       lookup_serviced outnet' (q, a, d) = Some h \<and> sends = []"
    if l: "lookup_serviced outnet (q, a, d) = Some sq" and n: "\<not> callback_list_find sq arg eq"
    for sq
  proof -
    from l have k: "serviced_key_of sq = (q, a, d)"
      unfolding lookup_serviced_def using find_key by blast
    from r l n have h: "h = sq\<lparr>cblist := cblist sq @ [\<lparr>cb = callback, cb_arg = arg\<rparr>]\<rparr>"
      and res: "res = Attached" and sends: "sends = []"
      and s: "serviced outnet' =
         map (\<lambda>e. if serviced_key_of e = (q, a, d) then h else e) (serviced outnet)"
      by (auto simp: outnet_serviced_query_def Let_def)
    have kh: "serviced_key_of h = (q, a, d)" by (simp add: h k)
    have m: "map serviced_key_of (serviced outnet') = map serviced_key_of (serviced outnet)"
      unfolding s by (rule map_keys_replace [OF kh])
    have f: "lookup_serviced outnet' (q, a, d) = Some h"
      using l unfolding lookup_serviced_def s by (rule find_replaced [OF _ kh])
    from h res sends s m f show ?thesis by blast
  qed
  have dup: "res = Already_subscribed \<and> h = sq \<and> outnet' = outnet \<and> sends = []"
    if "lookup_serviced outnet (q, a, d) = Some sq" and "callback_list_find sq arg eq" for sq
    using r that by (auto simp: outnet_serviced_query_def)
  have new: "res = Created \<and> status h = serviced_initial \<and>
       cblist h = [\<lparr>cb = callback, cb_arg = arg\<rparr>] \<and> serviced_key_of h = (q, a, d) \<and>
       serviced outnet' = serviced outnet @ [h] \<and> sends = [(q, a, d)]"
    if "lookup_serviced outnet (q, a, d) = None"
    using r that
    by (auto simp: outnet_serviced_query_def Let_def serviced_create_def serviced_key_of_def)
  from att dup new inv' run show ?thesis by blast
qed

text \<open>
  A second subscriber with another argument is attached to the existing entry,
  and nothing is sent.
\<close>

lemma example_index_ok: "one_entry_per_key example_index"
  by (simp add: one_entry_per_key_def example_index_def)

theorem serviced_query_attach_or_create_witness:
  "one_entry_per_key example_index \<and>
   outnet_serviced_query example_index [1, 0x61, 0] True (IP4 10) 2 8 (=) =
     ((Attached,
       \<lparr>qbuf = [1, 0x61, 0], dnssec = True, sq_addr = IP4 10,
        status = serviced_query_UDP_EDNS, to_be_deleted = False, retry = 0,
        cblist = [\<lparr>cb = 1, cb_arg = 7\<rparr>, \<lparr>cb = 2, cb_arg = 8\<rparr>]\<rparr>),
      \<lparr>serviced = [\<lparr>qbuf = [1, 0x61, 0], dnssec = True, sq_addr = IP4 10,
        status = serviced_query_UDP_EDNS, to_be_deleted = False, retry = 0,
        cblist = [\<lparr>cb = 1, cb_arg = 7\<rparr>, \<lparr>cb = 2, cb_arg = 8\<rparr>]\<rparr>]\<rparr>,
      []) \<and>
   one_entry_per_key (fst (snd (outnet_serviced_query example_index [1, 0x61, 0] True (IP4 10) 2 8 (=))))"
proof -
  have e: "outnet_serviced_query example_index [1, 0x61, 0] True (IP4 10) 2 8 (=) =
     ((Attached,
       \<lparr>qbuf = [1, 0x61, 0], dnssec = True, sq_addr = IP4 10,
        status = serviced_query_UDP_EDNS, to_be_deleted = False, retry = 0,
        cblist = [\<lparr>cb = 1, cb_arg = 7\<rparr>, \<lparr>cb = 2, cb_arg = 8\<rparr>]\<rparr>),
      \<lparr>serviced = [\<lparr>qbuf = [1, 0x61, 0], dnssec = True, sq_addr = IP4 10,
        status = serviced_query_UDP_EDNS, to_be_deleted = False, retry = 0,
        cblist = [\<lparr>cb = 1, cb_arg = 7\<rparr>, \<lparr>cb = 2, cb_arg = 8\<rparr>]\<rparr>]\<rparr>,
      [])"
    by (simp add: outnet_serviced_query_def lookup_serviced_def example_index_def
        serviced_key_of_def callback_list_find_def Let_def)
  from serviced_query_attach_or_create [OF example_index_ok e] example_index_ok e
  show ?thesis by simp
qed

text \<open>
  The claim as written fails for a submission whose argument equals that of a
  subscriber already on the list: the list stays as it was.
\<close>

theorem serviced_query_duplicate_subscriber_counterexample:
  "lookup_serviced example_index ([1, 0x61, 0], IP4 10, True) = Some (hd (serviced example_index)) \<and>
   cblist (hd (serviced example_index)) = [\<lparr>cb = 1, cb_arg = 7\<rparr>] \<and>
   outnet_serviced_query example_index [1, 0x61, 0] True (IP4 10) 2 7 (=) =
     ((Already_subscribed, hd (serviced example_index)), example_index, [])"
  by (simp add: outnet_serviced_query_def lookup_serviced_def example_index_def
      serviced_key_of_def callback_list_find_def Let_def)

section \<open>The TCP pool: services/outside\_network\<close>

text \<open>
  The status that a callback receives.
\<close>

datatype tcp_status = Reply | Conn_error | Write_error | Timeout

text \<open>
  \<^verbatim>\<open>struct waiting_tcp\<close> and \<^verbatim>\<open>struct pending_tcp\<close> of the header. \<open>w_id\<close>
  identifies the request (its address); \<open>w_timer\<close> is the time at which its
  timeout timer fires; \<open>w_pkt\<close> is the query packet, \<open>None\<close> once the request
  is serviced by a slot, whose buffer then holds the packet. Of
  \<^verbatim>\<open>struct outside_network\<close>: the array of slots, the list of free slots (by
  index) and the list of waiting requests.
\<close>

record waiting_tcp =
  w_id :: nat
  w_timer :: nat
  w_pkt :: "8 word list option"
  w_cb :: nat

record pending_tcp =
  p_query :: "waiting_tcp option"
  p_buffer :: "8 word list"

record tcp_pool =
  tcp_conns :: "pending_tcp list"
  tcp_free :: "nat list"
  tcp_wait :: "waiting_tcp list"

text \<open>
  Modelled from the spec: a request is given to a slot, missing with
  \<^verbatim>\<open>outside_network.c\<close>. The packet bytes move into the slot; the timer of the
  request is not touched.
\<close>

definition tcp_dispatch :: "tcp_pool \<Rightarrow> nat \<Rightarrow> waiting_tcp \<Rightarrow> tcp_pool" where
  "tcp_dispatch pool s w =
     pool\<lparr>tcp_conns := (tcp_conns pool)
       [s := \<lparr>p_query = Some (w\<lparr>w_pkt := None\<rparr>),
              p_buffer = (case w_pkt w of Some b \<Rightarrow> b | None \<Rightarrow> [])\<rparr>]\<rparr>"

text \<open>
  Modelled from the spec: \<^verbatim>\<open>pending_tcp_query\<close>, declared in the header and
  defined in the missing \<^verbatim>\<open>outside_network.c\<close>. Submit: with a free slot, pop
  it and transfer the packet into it; otherwise append the request, with its
  packet, to the wait queue. The timeout is in seconds from now and the timer
  starts running now, at time \<open>tm\<close>.
\<close>

definition pending_tcp_query ::
  "tcp_pool \<Rightarrow> nat \<Rightarrow> 8 word list \<Rightarrow> nat \<Rightarrow> nat \<Rightarrow> nat \<Rightarrow> waiting_tcp \<times> tcp_pool" where
  "pending_tcp_query pool rid packet timeout callback tm =
    (let w = \<lparr>w_id = rid, w_timer = tm + timeout, w_pkt = Some packet, w_cb = callback\<rparr>
     in case tcp_free pool of
          s # free \<Rightarrow> (w, tcp_dispatch (pool\<lparr>tcp_free := free\<rparr>) s w)
        | [] \<Rightarrow> (w, pool\<lparr>tcp_wait := tcp_wait pool @ [w]\<rparr>))"

text \<open>
  Modelled from the spec: slot completion (reply, connection error or write
  error), missing with \<^verbatim>\<open>outside_network.c\<close>. The callback of the request is
  dispatched with the status, the slot returns to the freelist, and if the wait
  queue is not empty its head is submitted to this now free slot. The result
  is the pool and the callbacks made, each the request and the status.
\<close>

definition tcp_slot_done ::
  "tcp_pool \<Rightarrow> nat \<Rightarrow> tcp_status \<Rightarrow> tcp_pool \<times> (nat \<times> tcp_status) list" where
  "tcp_slot_done pool s st =
    (if length (tcp_conns pool) \<le> s then (pool, [])
     else case p_query (tcp_conns pool ! s) of
        None \<Rightarrow> (pool, [])
      | Some w \<Rightarrow>
          let freed = pool\<lparr>tcp_conns := (tcp_conns pool)[s := \<lparr>p_query = None, p_buffer = []\<rparr>],
                           tcp_free := s # tcp_free pool\<rparr>
          in case tcp_wait freed of
               [] \<Rightarrow> (freed, [(w_id w, st)])
             | w2 # ws \<Rightarrow>
                 (tcp_dispatch (freed\<lparr>tcp_free := tcp_free pool, tcp_wait := ws\<rparr>) s w2,
                  [(w_id w, st)]))"

text \<open>
  Modelled from the spec: the timer of a queued request fires, missing with
  \<^verbatim>\<open>outside_network.c\<close>. The timer of request \<open>rid\<close> fires at time \<open>tm\<close> if
  \<open>tm\<close> has reached \<open>w_timer\<close>; Timeout is signalled to its callback and the
  request is unlinked from the wait queue. The slots are not touched.
\<close>

definition tcp_wait_timeout ::
  "tcp_pool \<Rightarrow> nat \<Rightarrow> nat \<Rightarrow> tcp_pool \<times> (nat \<times> tcp_status) list" where
  "tcp_wait_timeout pool rid tm =
    (case find (\<lambda>w. w_id w = rid) (tcp_wait pool) of
       None \<Rightarrow> (pool, [])
     | Some w \<Rightarrow>
         if w_timer w \<le> tm
         then (pool\<lparr>tcp_wait := filter (\<lambda>x. w_id x \<noteq> rid) (tcp_wait pool)\<rparr>, [(rid, Timeout)])
         else (pool, []))"

text \<open>
  The events of the pool, and a run of events with the callbacks it makes.
\<close>

datatype tcp_event =
  Ev_submit nat "8 word list" nat nat nat
  | Ev_done nat tcp_status
  | Ev_timer nat nat

fun tcp_step :: "tcp_pool \<Rightarrow> tcp_event \<Rightarrow> tcp_pool \<times> (nat \<times> tcp_status) list" where
  "tcp_step pool (Ev_submit rid packet timeout callback tm) =
     (snd (pending_tcp_query pool rid packet timeout callback tm), [])"
| "tcp_step pool (Ev_done s st) = tcp_slot_done pool s st"
| "tcp_step pool (Ev_timer rid tm) = tcp_wait_timeout pool rid tm"

fun tcp_run :: "tcp_pool \<Rightarrow> tcp_event list \<Rightarrow> tcp_pool \<times> (nat \<times> tcp_status) list" where
  "tcp_run pool [] = (pool, [])"
| "tcp_run pool (e # es) =
     (case tcp_step pool e of
        (pool1, cbs1) \<Rightarrow> (case tcp_run pool1 es of (pool2, cbs2) \<Rightarrow> (pool2, cbs1 @ cbs2)))"

text \<open>
  A request is in flight when a slot serves it, and waiting when it is on the
  wait queue. An event submits a request when it is the submission of that
  request.
\<close>

definition slot_serves :: "nat \<Rightarrow> pending_tcp \<Rightarrow> bool" where
  "slot_serves rid e = (case p_query e of None \<Rightarrow> False | Some w \<Rightarrow> w_id w = rid)"

definition in_flight :: "tcp_pool \<Rightarrow> nat \<Rightarrow> bool" where
  "in_flight pool rid = list_ex (slot_serves rid) (tcp_conns pool)"

definition waiting :: "tcp_pool \<Rightarrow> nat \<Rightarrow> bool" where
  "waiting pool rid = list_ex (\<lambda>w. w_id w = rid) (tcp_wait pool)"

fun submits :: "tcp_event \<Rightarrow> nat \<Rightarrow> bool" where
  "submits (Ev_submit rid packet timeout callback tm) r = (rid = r)"
| "submits (Ev_done s st) r = False"
| "submits (Ev_timer rid tm) r = False"

text \<open>
  Two slots, both in flight, and a third request on the wait queue whose timer
  fires at time 1.
\<close>

definition example_pool :: tcp_pool where
  "example_pool =
     \<lparr>tcp_conns =
        [\<lparr>p_query = Some \<lparr>w_id = 1, w_timer = 5, w_pkt = None, w_cb = 11\<rparr>, p_buffer = [0, 1]\<rparr>,
         \<lparr>p_query = Some \<lparr>w_id = 2, w_timer = 5, w_pkt = None, w_cb = 12\<rparr>, p_buffer = [0, 2]\<rparr>],
      tcp_free = [],
      tcp_wait = [\<lparr>w_id = 3, w_timer = 1, w_pkt = Some [0, 3], w_cb = 13\<rparr>]\<rparr>"

subsection \<open>Properties of the pool\<close>

lemma list_ex_update:
  "list_ex P (xs[s := e]) \<Longrightarrow> list_ex P xs \<or> P e"
proof -
  assume "list_ex P (xs[s := e])"
  then obtain x where x: "x \<in> set (xs[s := e])" "P x" by (auto simp: list_ex_iff)
  from x(1) set_update_subset_insert [of xs s e] have "x = e \<or> x \<in> set xs" by blast
  with x(2) show ?thesis by (auto simp: list_ex_iff)
qed

lemma in_flight_dispatch:
  "in_flight (tcp_dispatch pool s w) rid \<Longrightarrow> in_flight pool rid \<or> w_id w = rid"
proof -
  assume "in_flight (tcp_dispatch pool s w) rid"
  then have "list_ex (slot_serves rid) ((tcp_conns pool)
       [s := \<lparr>p_query = Some (w\<lparr>w_pkt := None\<rparr>),
              p_buffer = (case w_pkt w of Some b \<Rightarrow> b | None \<Rightarrow> [])\<rparr>])"
    by (simp add: in_flight_def tcp_dispatch_def)
  from list_ex_update [OF this] show ?thesis
    by (simp add: in_flight_def slot_serves_def)
qed

lemma in_flight_clear:
  "in_flight (pool\<lparr>tcp_conns := (tcp_conns pool)[s := \<lparr>p_query = None, p_buffer = []\<rparr>]\<rparr>) rid
   \<Longrightarrow> in_flight pool rid"
proof -
  assume "in_flight (pool\<lparr>tcp_conns := (tcp_conns pool)[s := \<lparr>p_query = None, p_buffer = []\<rparr>]\<rparr>) rid"
  then have "list_ex (slot_serves rid) ((tcp_conns pool)[s := \<lparr>p_query = None, p_buffer = []\<rparr>])"
    by (simp add: in_flight_def)
  from list_ex_update [OF this] show ?thesis
    by (simp add: in_flight_def slot_serves_def)
qed


lemma slot_in_flight:
  "s < length (tcp_conns pool) \<Longrightarrow> p_query (tcp_conns pool ! s) = Some w \<Longrightarrow>
   in_flight pool (w_id w)"
proof -
  assume "s < length (tcp_conns pool)" "p_query (tcp_conns pool ! s) = Some w"
  then have "tcp_conns pool ! s \<in> set (tcp_conns pool)"
    "slot_serves (w_id w) (tcp_conns pool ! s)"
    by (simp_all add: slot_serves_def)
  then show ?thesis unfolding in_flight_def list_ex_iff by blast
qed

lemma find_id:
  "find (\<lambda>w. w_id w = rid) l = Some w \<Longrightarrow> w_id w = rid \<and> w \<in> set l"
  by (induction l) (auto split: if_splits)

lemma find_waiting:
  "find (\<lambda>w. w_id w = rid) (tcp_wait pool) = Some w \<Longrightarrow> w_id w = rid \<and> w \<in> set (tcp_wait pool)"
  by (rule find_id)

lemma submit_absent:
  assumes "rid' \<noteq> rid" "\<not> in_flight pool rid" "\<not> waiting pool rid"
  shows "\<not> in_flight (snd (pending_tcp_query pool rid' packet timeout callback tm)) rid \<and>
    \<not> waiting (snd (pending_tcp_query pool rid' packet timeout callback tm)) rid"
proof (cases "tcp_free pool")
  case Nil
  with assms show ?thesis
    by (simp add: pending_tcp_query_def Let_def in_flight_def waiting_def)
next
  case (Cons s f)
  let ?w = "\<lparr>w_id = rid', w_timer = tm + timeout, w_pkt = Some packet, w_cb = callback\<rparr>"
  have e: "snd (pending_tcp_query pool rid' packet timeout callback tm) =
      tcp_dispatch (pool\<lparr>tcp_free := f\<rparr>) s ?w"
    using Cons by (simp add: pending_tcp_query_def Let_def)
  have "\<not> in_flight (pool\<lparr>tcp_free := f\<rparr>) rid" using assms(2) by (simp add: in_flight_def)
  with in_flight_dispatch [of "pool\<lparr>tcp_free := f\<rparr>" s ?w rid] assms(1)
  have "\<not> in_flight (tcp_dispatch (pool\<lparr>tcp_free := f\<rparr>) s ?w) rid" by auto
  moreover have "\<not> waiting (tcp_dispatch (pool\<lparr>tcp_free := f\<rparr>) s ?w) rid"
    using assms(3) by (simp add: waiting_def tcp_dispatch_def)
  ultimately show ?thesis by (simp only: e) simp
qed

lemma done_absent:
  assumes nf: "\<not> in_flight pool rid" and nw: "\<not> waiting pool rid"
    and r: "tcp_slot_done pool s st = (pool', cbs)"
  shows "\<not> in_flight pool' rid \<and> \<not> waiting pool' rid \<and> rid \<notin> fst ` set cbs"
proof (cases "length (tcp_conns pool) \<le> s")
  case True
  with r nf nw show ?thesis by (simp add: tcp_slot_done_def)
next
  case inb: False
  show ?thesis
  proof (cases "p_query (tcp_conns pool ! s)")
    case None
    with inb r nf nw show ?thesis by (simp add: tcp_slot_done_def)
  next
    case (Some w)
    with inb have "in_flight pool (w_id w)" by (intro slot_in_flight) simp_all
    with nf have wr: "w_id w \<noteq> rid" by auto
    let ?cleared = "pool\<lparr>tcp_conns := (tcp_conns pool)[s := \<lparr>p_query = None, p_buffer = []\<rparr>]\<rparr>"
    have c: "\<not> in_flight ?cleared rid" using in_flight_clear [of pool s rid] nf by blast
    show ?thesis
    proof (cases "tcp_wait pool")
      case Nil
      with r inb Some have "pool' = ?cleared\<lparr>tcp_free := s # tcp_free pool\<rparr>"
        and "cbs = [(w_id w, st)]"
        by (simp_all add: tcp_slot_done_def Let_def)
      with c nw wr show ?thesis by (simp add: in_flight_def waiting_def)
    next
      case (Cons w2 ws)
      with r inb Some have p: "pool' = tcp_dispatch
          (?cleared\<lparr>tcp_free := s # tcp_free pool, tcp_free := tcp_free pool, tcp_wait := ws\<rparr>) s w2"
        and cb: "cbs = [(w_id w, st)]"
        by (simp_all add: tcp_slot_done_def Let_def)
      from Cons nw have w2: "w_id w2 \<noteq> rid" and ws: "\<not> list_ex (\<lambda>w. w_id w = rid) ws"
        by (simp_all add: waiting_def)
      have "\<not> in_flight
          (?cleared\<lparr>tcp_free := s # tcp_free pool, tcp_free := tcp_free pool, tcp_wait := ws\<rparr>) rid"
        using c by (simp add: in_flight_def)
      with in_flight_dispatch w2 have "\<not> in_flight pool' rid" unfolding p by blast
      moreover have "\<not> waiting pool' rid" using ws by (simp add: p waiting_def tcp_dispatch_def)
      ultimately show ?thesis using wr cb by simp
    qed
  qed
qed

lemma timeout_absent:
  assumes nf: "\<not> in_flight pool rid" and nw: "\<not> waiting pool rid"
    and r: "tcp_wait_timeout pool rid' tm = (pool', cbs)"
  shows "\<not> in_flight pool' rid \<and> \<not> waiting pool' rid \<and> rid \<notin> fst ` set cbs"
proof (cases "find (\<lambda>w. w_id w = rid') (tcp_wait pool)")
  case None
  with r nf nw show ?thesis by (simp add: tcp_wait_timeout_def)
next
  case (Some w)
  from find_waiting [OF Some] have wi: "w_id w = rid'" and wm: "w \<in> set (tcp_wait pool)"
    by simp_all
  from wm nw have "w_id w \<noteq> rid" unfolding waiting_def list_ex_iff by blast
  with wi have ne: "rid' \<noteq> rid" by simp
  have fl: "\<not> list_ex (\<lambda>w. w_id w = rid) (filter (\<lambda>x. w_id x \<noteq> rid') (tcp_wait pool))"
    using nw unfolding waiting_def list_ex_iff by simp
  show ?thesis
  proof (cases "w_timer w \<le> tm")
    case True
    with r Some have "pool' = pool\<lparr>tcp_wait := filter (\<lambda>x. w_id x \<noteq> rid') (tcp_wait pool)\<rparr>"
      and "cbs = [(rid', Timeout)]"
      by (simp_all add: tcp_wait_timeout_def)
    with nf fl ne show ?thesis by (simp add: in_flight_def waiting_def)
  next
    case False
    with r Some have "pool' = pool" and "cbs = []" by (simp_all add: tcp_wait_timeout_def)
    with nf nw show ?thesis by simp
  qed
qed

lemma step_absent:
  assumes "\<not> submits e rid" "\<not> in_flight pool rid" "\<not> waiting pool rid"
    and "tcp_step pool e = (pool', cbs)"
  shows "\<not> in_flight pool' rid \<and> \<not> waiting pool' rid \<and> rid \<notin> fst ` set cbs"
proof (cases e)
  case (Ev_submit rid' packet timeout callback tm)
  with assms(1) have "rid' \<noteq> rid" by simp
  from submit_absent [OF this assms(2,3)] assms(4) Ev_submit show ?thesis by auto
next
  case (Ev_done s st)
  with assms(4) have "tcp_slot_done pool s st = (pool', cbs)" by simp
  from done_absent [OF assms(2,3) this] show ?thesis .
next
  case (Ev_timer rid' tm)
  with assms(4) have "tcp_wait_timeout pool rid' tm = (pool', cbs)" by simp
  from timeout_absent [OF assms(2,3) this] show ?thesis .
qed

lemma run_absent:
  "\<forall>e \<in> set es. \<not> submits e rid \<Longrightarrow> \<not> in_flight pool rid \<Longrightarrow> \<not> waiting pool rid \<Longrightarrow>
   \<not> in_flight (fst (tcp_run pool es)) rid \<and> rid \<notin> fst ` set (snd (tcp_run pool es))"
proof (induction es arbitrary: pool)
  case Nil
  then show ?case by simp
next
  case (Cons e es)
  obtain pool1 cbs1 where s: "tcp_step pool e = (pool1, cbs1)" by (cases "tcp_step pool e") auto
  from Cons.prems(1) have ns: "\<not> submits e rid" and rest: "\<forall>e \<in> set es. \<not> submits e rid"
    by simp_all
  from step_absent [OF ns Cons.prems(2,3) s]
  have a: "\<not> in_flight pool1 rid" "\<not> waiting pool1 rid" "rid \<notin> fst ` set cbs1" by simp_all
  obtain pool2 cbs2 where t: "tcp_run pool1 es = (pool2, cbs2)" by (cases "tcp_run pool1 es") auto
  from Cons.IH [OF rest a(1,2)] t have "\<not> in_flight pool2 rid" "rid \<notin> fst ` set cbs2"
    by simp_all
  with a(3) show ?case by (simp add: s t image_Un)
qed


lemma find_distinct_id:
  "distinct (map w_id l) \<Longrightarrow> w \<in> set l \<Longrightarrow> find (\<lambda>x. w_id x = w_id w) l = Some w"
  by (induction l) (auto simp: image_iff)

lemma filter_id_remove1:
  "distinct (map w_id l) \<Longrightarrow> w \<in> set l \<Longrightarrow> filter (\<lambda>x. w_id x \<noteq> w_id w) l = remove1 w l"
proof (induction l)
  case Nil
  then show ?case by simp
next
  case (Cons a l)
  from Cons.prems(1) have na: "w_id a \<notin> w_id ` set l" and d: "distinct (map w_id l)" by simp_all
  show ?case
  proof (cases "a = w")
    case True
    have "\<forall>x \<in> set l. w_id x \<noteq> w_id w"
    proof
      fix x assume "x \<in> set l"
      then have "w_id x \<in> w_id ` set l" by (rule imageI)
      with na True show "w_id x \<noteq> w_id w" by metis
    qed
    then have "filter (\<lambda>x. w_id x \<noteq> w_id w) l = l" by (simp only: filter_id_conv)
    with True show ?thesis by simp
  next
    case False
    with Cons.prems(2) have wl: "w \<in> set l" by simp
    with na have "w_id a \<noteq> w_id w" by blast
    with False Cons.IH [OF d wl] show ?thesis by simp
  qed
qed

text \<open>
  Claim C6. For every TCP query submitted at time \<open>tm\<close> with a timeout, the
  timer of the request fires at \<open>tm + timeout\<close>, whether the request goes to a
  slot at once or to the wait queue; and when a slot completion later gives the
  head of the wait queue to the slot, the request enters the slot with the timer
  it had. A queued request (the requests in the queue being distinct and not in
  a slot) whose timer fires while it is queued delivers exactly one callback,
  a Timeout; the slots and the freelist are unchanged, the request has left the
  queue and is in no slot, and in any later run of events that does not submit
  it again it never occupies a slot and gets no further callback.
\<close>

theorem tcp_timer_runs_from_submission:
  "w_timer (fst (pending_tcp_query pool rid packet timeout callback tm)) = tm + timeout \<and>
   (tcp_free pool = [] \<longrightarrow>
      snd (pending_tcp_query pool rid packet timeout callback tm) =
        pool\<lparr>tcp_wait := tcp_wait pool @ [fst (pending_tcp_query pool rid packet timeout callback tm)]\<rparr>) \<and>
   (\<forall>s f. tcp_free pool = s # f \<and> s < length (tcp_conns pool) \<longrightarrow>
      p_query (tcp_conns (snd (pending_tcp_query pool rid packet timeout callback tm)) ! s) =
        Some ((fst (pending_tcp_query pool rid packet timeout callback tm))\<lparr>w_pkt := None\<rparr>)) \<and>
   (\<forall>s st w w2 ws. s < length (tcp_conns pool) \<and> p_query (tcp_conns pool ! s) = Some w \<and>
      tcp_wait pool = w2 # ws \<longrightarrow>
      p_query (tcp_conns (fst (tcp_slot_done pool s st)) ! s) = Some (w2\<lparr>w_pkt := None\<rparr>) \<and>
      tcp_wait (fst (tcp_slot_done pool s st)) = ws) \<and>
   (\<forall>w pool' cbs. w \<in> set (tcp_wait pool) \<and> distinct (map w_id (tcp_wait pool)) \<and>
      \<not> in_flight pool (w_id w) \<and> w_timer w \<le> tm \<and>
      tcp_wait_timeout pool (w_id w) tm = (pool', cbs) \<longrightarrow>
      cbs = [(w_id w, Timeout)] \<and>
      tcp_conns pool' = tcp_conns pool \<and> tcp_free pool' = tcp_free pool \<and>
      tcp_wait pool' = remove1 w (tcp_wait pool) \<and>
      \<not> waiting pool' (w_id w) \<and> \<not> in_flight pool' (w_id w) \<and>
      (\<forall>es. (\<forall>e \<in> set es. \<not> submits e (w_id w)) \<longrightarrow>
         \<not> in_flight (fst (tcp_run pool' es)) (w_id w) \<and>
         w_id w \<notin> fst ` set (snd (tcp_run pool' es))))"
proof (intro conjI allI impI)
  show "w_timer (fst (pending_tcp_query pool rid packet timeout callback tm)) = tm + timeout"
    by (simp add: pending_tcp_query_def Let_def split: list.splits)
  show "snd (pending_tcp_query pool rid packet timeout callback tm) =
        pool\<lparr>tcp_wait := tcp_wait pool @ [fst (pending_tcp_query pool rid packet timeout callback tm)]\<rparr>"
    if "tcp_free pool = []"
    using that by (simp add: pending_tcp_query_def Let_def)
  show "p_query (tcp_conns (snd (pending_tcp_query pool rid packet timeout callback tm)) ! s) =
        Some ((fst (pending_tcp_query pool rid packet timeout callback tm))\<lparr>w_pkt := None\<rparr>)"
    if "tcp_free pool = s # f \<and> s < length (tcp_conns pool)" for s f
    using that by (simp add: pending_tcp_query_def Let_def tcp_dispatch_def)
next
  fix s st w w2 ws
  assume h: "s < length (tcp_conns pool) \<and> p_query (tcp_conns pool ! s) = Some w \<and>
      tcp_wait pool = w2 # ws"
  then have e: "tcp_slot_done pool s st =
     (tcp_dispatch (pool\<lparr>tcp_conns := (tcp_conns pool)[s := \<lparr>p_query = None, p_buffer = []\<rparr>],
        tcp_free := s # tcp_free pool, tcp_free := tcp_free pool, tcp_wait := ws\<rparr>) s w2,
      [(w_id w, st)])"
    by (simp add: tcp_slot_done_def Let_def)
  from h show "p_query (tcp_conns (fst (tcp_slot_done pool s st)) ! s) = Some (w2\<lparr>w_pkt := None\<rparr>)"
    by (simp add: e tcp_dispatch_def)
  show "tcp_wait (fst (tcp_slot_done pool s st)) = ws"
    by (simp add: e tcp_dispatch_def)
next
  fix w pool' cbs
  assume h: "w \<in> set (tcp_wait pool) \<and> distinct (map w_id (tcp_wait pool)) \<and>
      \<not> in_flight pool (w_id w) \<and> w_timer w \<le> tm \<and>
      tcp_wait_timeout pool (w_id w) tm = (pool', cbs)"
  then have f: "find (\<lambda>x. w_id x = w_id w) (tcp_wait pool) = Some w"
    by (intro find_distinct_id) simp_all
  from h have tl: "w_timer w \<le> tm"
    and eq: "tcp_wait_timeout pool (w_id w) tm = (pool', cbs)" by simp_all
  from eq have p: "pool' = pool\<lparr>tcp_wait := filter (\<lambda>x. w_id x \<noteq> w_id w) (tcp_wait pool)\<rparr>"
    and c: "cbs = [(w_id w, Timeout)]"
    by (simp_all add: tcp_wait_timeout_def f tl)
  show "cbs = [(w_id w, Timeout)]" by (rule c)
  show "tcp_conns pool' = tcp_conns pool" by (simp add: p)
  show "tcp_free pool' = tcp_free pool" by (simp add: p)
  from h have "filter (\<lambda>x. w_id x \<noteq> w_id w) (tcp_wait pool) = remove1 w (tcp_wait pool)"
    by (intro filter_id_remove1) simp_all
  then show "tcp_wait pool' = remove1 w (tcp_wait pool)" by (simp add: p)
  show nw: "\<not> waiting pool' (w_id w)" by (simp add: p waiting_def list_ex_iff)
  from h show nf: "\<not> in_flight pool' (w_id w)" by (simp add: p in_flight_def)
  fix es
  assume "\<forall>e \<in> set es. \<not> submits e (w_id w)"
  from run_absent [OF this nf nw]
  show "\<not> in_flight (fst (tcp_run pool' es)) (w_id w)"
    and "w_id w \<notin> fst ` set (snd (tcp_run pool' es))" by simp_all
qed

text \<open>
  With both slots taken the third request is queued; its timer fires at time 1,
  it gets Timeout, the slots stay as they are, and it is in no slot after the
  two replies arrive.
\<close>

lemma example_pool_queued:
  "\<lparr>w_id = 3, w_timer = 1, w_pkt = Some [0, 3], w_cb = 13\<rparr> \<in> set (tcp_wait example_pool) \<and>
   distinct (map w_id (tcp_wait example_pool)) \<and>
   \<not> in_flight example_pool (w_id \<lparr>w_id = 3, w_timer = 1, w_pkt = Some [0, 3], w_cb = 13\<rparr>) \<and>
   w_timer \<lparr>w_id = 3, w_timer = 1, w_pkt = Some [0, 3], w_cb = 13\<rparr> \<le> 1"
  by (simp add: example_pool_def in_flight_def slot_serves_def)

lemma example_pool_timeout:
  "tcp_wait_timeout example_pool 3 1 = (example_pool\<lparr>tcp_wait := []\<rparr>, [(3, Timeout)])"
  by (simp add: tcp_wait_timeout_def example_pool_def)

lemma example_pool_submit:
  "snd (pending_tcp_query (example_pool\<lparr>tcp_wait := []\<rparr>) 3 [0, 3] 1 13 0) = example_pool"
  by (simp add: pending_tcp_query_def example_pool_def Let_def)

theorem tcp_timer_runs_from_submission_witness:
  "snd (pending_tcp_query (example_pool\<lparr>tcp_wait := []\<rparr>) 3 [0, 3] 1 13 0) = example_pool \<and>
   tcp_wait_timeout example_pool 3 1 = (example_pool\<lparr>tcp_wait := []\<rparr>, [(3, Timeout)]) \<and>
   tcp_conns (example_pool\<lparr>tcp_wait := []\<rparr>) = tcp_conns example_pool \<and>
   tcp_free (example_pool\<lparr>tcp_wait := []\<rparr>) = tcp_free example_pool \<and>
   \<not> in_flight (fst (tcp_run (example_pool\<lparr>tcp_wait := []\<rparr>) [Ev_done 0 Reply, Ev_done 1 Reply])) 3"
proof -
  let ?w = "\<lparr>w_id = 3, w_timer = 1, w_pkt = Some [0, 3], w_cb = 13\<rparr>"
  have t: "tcp_wait_timeout example_pool (w_id ?w) 1 =
      (example_pool\<lparr>tcp_wait := []\<rparr>, [(3, Timeout)])"
    using example_pool_timeout by simp
  from example_pool_queued t
  have h: "?w \<in> set (tcp_wait example_pool) \<and> distinct (map w_id (tcp_wait example_pool)) \<and>
      \<not> in_flight example_pool (w_id ?w) \<and> w_timer ?w \<le> 1 \<and>
      tcp_wait_timeout example_pool (w_id ?w) 1 = (example_pool\<lparr>tcp_wait := []\<rparr>, [(3, Timeout)])"
    by (intro conjI) (elim conjE, assumption)+
  note c = tcp_timer_runs_from_submission [of example_pool 3 "[0, 3]" 1 13 1,
      THEN conjunct2, THEN conjunct2, THEN conjunct2, THEN conjunct2, rule_format, OF h]
  have n: "\<forall>e \<in> set [Ev_done 0 Reply, Ev_done 1 Reply]. \<not> submits e (w_id ?w)" by simp
  from c have "\<forall>es. (\<forall>e \<in> set es. \<not> submits e (w_id ?w)) \<longrightarrow>
         \<not> in_flight (fst (tcp_run (example_pool\<lparr>tcp_wait := []\<rparr>) es)) (w_id ?w) \<and>
         w_id ?w \<notin> fst ` set (snd (tcp_run (example_pool\<lparr>tcp_wait := []\<rparr>) es))"
    by (elim conjE) assumption
  then have "(\<forall>e \<in> set [Ev_done 0 Reply, Ev_done 1 Reply]. \<not> submits e (w_id ?w)) \<longrightarrow>
         \<not> in_flight (fst (tcp_run (example_pool\<lparr>tcp_wait := []\<rparr>)
           [Ev_done 0 Reply, Ev_done 1 Reply])) (w_id ?w) \<and>
         w_id ?w \<notin> fst ` set (snd (tcp_run (example_pool\<lparr>tcp_wait := []\<rparr>)
           [Ev_done 0 Reply, Ev_done 1 Reply]))"
    by (rule spec)
  from this [THEN mp, OF n]
  have "\<not> in_flight (fst (tcp_run (example_pool\<lparr>tcp_wait := []\<rparr>)
      [Ev_done 0 Reply, Ev_done 1 Reply])) 3" by simp
  with example_pool_submit example_pool_timeout show ?thesis by simp
qed

end
